theory Spec2Isabelle
  imports Complex_Main "HOL-Library.AList" "HOL-Library.Sublist"
begin

section \<open>Shared data\<close>

text \<open>
  Values of TypeScript type \<open>unknown\<close> (log payloads, alert metadata, log documents)
  are JSON-like trees. A JSON object is the list of its properties in the order in
  which the object enumerates them.
\<close>

datatype json =
    JNull
  | JBool bool
  | JNum real
  | JStr string
  | JArr "json list"
  | JObj "(string \<times> json) list"

datatype tag_value = TagString string | TagNumber real | TagBool bool

text \<open>The tags of a span are a \<open>Record<string, string | number | boolean>\<close>: a
  finite map from keys to values. The order in which a JavaScript object enumerates
  its keys (integer-like keys ascending, then the others as inserted) is not part of
  this model; no operation of the tracer reads it.\<close>

type_synonym tag_record = "string \<rightharpoonup> tag_value"

text \<open>\<open>Object.assign(target, source)\<close>: every own property of \<open>source\<close> is written
  into \<open>target\<close>; a key of both takes the value of \<open>source\<close>.\<close>

definition object_assign :: "('k \<rightharpoonup> 'v) \<Rightarrow> ('k \<rightharpoonup> 'v) \<Rightarrow> ('k \<rightharpoonup> 'v)" where
  "object_assign target source = target ++ source"

text \<open>\<open>xs.slice(-k)\<close> for a non-negative integer \<open>k\<close>: the last \<open>k\<close> elements
  (all of them when there are fewer).\<close>

definition slice_last :: "nat \<Rightarrow> 'a list \<Rightarrow> 'a list" where
  "slice_last k xs = drop (length xs - k) xs"

text \<open>The part of \<open>config/monitoring\<close> that the services read. The module is not
  among the sources, so its values are a parameter of every operation that reads them.\<close>

record MonitoringConfig =
  SERVICE_NAME :: string
  ELASTICSEARCH_ENABLED :: bool
  ALERT_COOLDOWN_MS :: int
  ALERT_EMAIL_ENABLED :: bool

section \<open>Tracing service\<close>

datatype span_status = ok | error | in_progress

record SpanLog =
  log_timestamp :: int
  log_message :: string
  log_data :: "json option"

record Span =
  spanId :: string
  traceId :: string
  parentSpanId :: "string option"
  operationName :: string
  serviceName :: string
  startTime :: int
  endTime :: "int option"
  duration :: "int option"
  status :: span_status
  tags :: tag_record
  logs :: "SpanLog list"

record TraceContext =
  ctx_traceId :: string
  ctx_spanId :: string
  ctx_parentSpanId :: "string option"

text \<open>
  \<open>activeSpans\<close> is a JavaScript \<open>Map\<close>: an association list in insertion order
  with \<open>map_of\<close> for \<open>get\<close>, \<open>AList.update\<close> for \<open>set\<close> and
  \<open>AList.delete\<close> for \<open>delete\<close>. Every span object is created by
  \<open>startTrace\<close>/\<open>startSpan\<close> and referenced from one place only (its entry of
  \<open>activeSpans\<close>, later its position in \<open>completedSpans\<close>), so the in-place
  mutations of the source are updates of the value stored at that place.
\<close>

record TracingService =
  activeSpans :: "(string \<times> Span) list"
  completedSpans :: "Span list"
  enabled :: bool
  sampleRate :: real

definition maxCompletedSpans :: nat where
  "maxCompletedSpans = 5000"

text \<open>The constructor; the two flags come from the configuration.\<close>

definition newTracingService :: "bool \<Rightarrow> real \<Rightarrow> TracingService" where
  "newTracingService en rate =
     \<lparr>activeSpans = [], completedSpans = [], enabled = en, sampleRate = rate\<rparr>"

text \<open>\<open>shouldSample\<close>; \<open>rnd\<close> is the value \<open>Math.random()\<close> returns.\<close>

definition shouldSample :: "TracingService \<Rightarrow> real \<Rightarrow> bool" where
  "shouldSample s rnd =
     (if \<not> enabled s then False
      else if sampleRate s \<ge> 1 then True
      else rnd < sampleRate s)"

text \<open>
  \<open>startTrace\<close>. The environment is explicit: \<open>newTraceId\<close> and \<open>newSpanId\<close> are
  what \<open>generateTraceId()\<close> and \<open>generateSpanId()\<close> return, \<open>now\<close> is
  \<open>Date.now()\<close>, \<open>rnd\<close> is \<open>Math.random()\<close>. An absent \<open>tags\<close> argument is
  \<open>None\<close>; \<open>{ ...tags }\<close> is then the empty record.
\<close>

definition spread_tags :: "tag_record option \<Rightarrow> tag_record" where
  "spread_tags t = (case t of None \<Rightarrow> Map.empty | Some r \<Rightarrow> r)"

definition startTrace ::
  "MonitoringConfig \<Rightarrow> TracingService \<Rightarrow> string \<Rightarrow> string \<Rightarrow> int \<Rightarrow> real \<Rightarrow>
   string \<Rightarrow> tag_record option \<Rightarrow> TracingService \<times> TraceContext" where
  "startTrace cfg s newTraceId newSpanId now rnd opName tgs =
     (let s' =
        (if shouldSample s rnd then
           s\<lparr>activeSpans := AList.update newSpanId
               \<lparr>spanId = newSpanId, traceId = newTraceId, parentSpanId = None,
                operationName = opName, serviceName = SERVICE_NAME cfg,
                startTime = now, endTime = None, duration = None,
                status = in_progress, tags = spread_tags tgs, logs = []\<rparr>
               (activeSpans s)\<rparr>
         else s)
      in (s', \<lparr>ctx_traceId = newTraceId, ctx_spanId = newSpanId, ctx_parentSpanId = None\<rparr>))"

definition startSpan ::
  "MonitoringConfig \<Rightarrow> TracingService \<Rightarrow> string \<Rightarrow> int \<Rightarrow>
   string \<Rightarrow> string \<Rightarrow> string \<Rightarrow> tag_record option \<Rightarrow> TracingService \<times> TraceContext" where
  "startSpan cfg s newSpanId now tid parent opName tgs =
     (let s' =
        (if enabled s then
           s\<lparr>activeSpans := AList.update newSpanId
               \<lparr>spanId = newSpanId, traceId = tid, parentSpanId = Some parent,
                operationName = opName, serviceName = SERVICE_NAME cfg,
                startTime = now, endTime = None, duration = None,
                status = in_progress, tags = spread_tags tgs, logs = []\<rparr>
               (activeSpans s)\<rparr>
         else s)
      in (s', \<lparr>ctx_traceId = tid, ctx_spanId = newSpanId, ctx_parentSpanId = Some parent\<rparr>))"

text \<open>The span \<open>endSpan\<close> leaves behind: end time and duration stamped, status set,
  tags merged.\<close>

definition close_span :: "Span \<Rightarrow> int \<Rightarrow> span_status \<Rightarrow> tag_record option \<Rightarrow> Span" where
  "close_span sp now st tgs =
     sp\<lparr>endTime := Some now, duration := Some (now - startTime sp), status := st,
        tags := (case tgs of None \<Rightarrow> tags sp | Some t \<Rightarrow> object_assign (tags sp) t)\<rparr>"

text \<open>Eviction of the completed store: above the cap, \<open>slice(-maxCompletedSpans / 2)\<close>.\<close>

definition evict_completed :: "Span list \<Rightarrow> Span list" where
  "evict_completed xs =
     (if length xs > maxCompletedSpans then slice_last (maxCompletedSpans div 2) xs else xs)"

text \<open>
  \<open>endSpan\<close> returns the new state and the span handed to \<open>shipSpan\<close> (when
  Elasticsearch is enabled); the call to \<open>shipSpan\<close> is not awaited.
\<close>

definition endSpan ::
  "MonitoringConfig \<Rightarrow> TracingService \<Rightarrow> int \<Rightarrow> string \<Rightarrow> span_status \<Rightarrow>
   tag_record option \<Rightarrow> TracingService \<times> Span option" where
  "endSpan cfg s now sid st tgs =
     (case map_of (activeSpans s) sid of
        None \<Rightarrow> (s, None)
      | Some sp \<Rightarrow>
          (let sp' = close_span sp now st tgs in
           (s\<lparr>activeSpans := AList.delete sid (activeSpans s),
              completedSpans := evict_completed (completedSpans s @ [sp'])\<rparr>,
            if ELASTICSEARCH_ENABLED cfg then Some sp' else None)))"

definition addSpanLog ::
  "TracingService \<Rightarrow> int \<Rightarrow> string \<Rightarrow> string \<Rightarrow> json option \<Rightarrow> TracingService" where
  "addSpanLog s now sid msg dat =
     (case map_of (activeSpans s) sid of
        None \<Rightarrow> s
      | Some sp \<Rightarrow>
          s\<lparr>activeSpans := AList.update sid
              (sp\<lparr>logs := logs sp @ [\<lparr>log_timestamp = now, log_message = msg, log_data = dat\<rparr>]\<rparr>)
              (activeSpans s)\<rparr>)"

definition addSpanTags :: "TracingService \<Rightarrow> string \<Rightarrow> tag_record \<Rightarrow> TracingService" where
  "addSpanTags s sid tgs =
     (case map_of (activeSpans s) sid of
        None \<Rightarrow> s
      | Some sp \<Rightarrow>
          s\<lparr>activeSpans := AList.update sid (sp\<lparr>tags := object_assign (tags sp) tgs\<rparr>)
              (activeSpans s)\<rparr>)"

text \<open>\<open>getTrace\<close>: active spans first, then completed ones, sorted by start time
  (\<open>Array.prototype.sort\<close> is stable, as \<open>sort_key\<close> is).\<close>

definition getTrace :: "TracingService \<Rightarrow> string \<Rightarrow> Span list" where
  "getTrace s tid =
     sort_key startTime
       (filter (\<lambda>sp. traceId sp = tid) (map snd (activeSpans s)) @
        filter (\<lambda>sp. traceId sp = tid) (completedSpans s))"

definition getActiveSpanCount :: "TracingService \<Rightarrow> nat" where
  "getActiveSpanCount s = length (activeSpans s)"

subsection \<open>Propagation header\<close>

text \<open>\<open>header.split('-')\<close>: the fields between the separators, at least one (the
  empty string splits into one empty field). Header values are strings of single-byte
  characters.\<close>

fun split_on :: "char \<Rightarrow> string \<Rightarrow> string list" where
  "split_on d [] = [[]]"
| "split_on d (c # cs) =
     (if c = d then [] # split_on d cs
      else (case split_on d cs of
              [] \<Rightarrow> [[c]]
            | p # ps \<Rightarrow> (c # p) # ps))"

text \<open>
  \<open>parseTraceparent\<close>; \<open>newSpanId\<close> is what \<open>generateSpanId()\<close> returns.
  \<open>!traceId\<close> holds of the empty string.
\<close>

definition parseTraceparent :: "string \<Rightarrow> string \<Rightarrow> TraceContext option" where
  "parseTraceparent newSpanId header =
     (let parts = split_on CHR ''-'' header in
      if length parts \<noteq> 4 then None
      else
        (let tid = parts ! 1; parent = parts ! 2 in
         if tid = [] \<or> length tid \<noteq> 32 then None
         else if parent = [] \<or> length parent \<noteq> 16 then None
         else Some \<lparr>ctx_traceId = tid, ctx_spanId = newSpanId, ctx_parentSpanId = Some parent\<rparr>))"

definition toTraceparent :: "TraceContext \<Rightarrow> string" where
  "toTraceparent ctx = ''00-'' @ ctx_traceId ctx @ ''-'' @ ctx_spanId ctx @ ''-01''"

text \<open>The rule of the specification, in its words: exactly four dash-separated
  fields, the second of 32 hexadecimal characters, the third of 16.\<close>

definition is_hex_char :: "char \<Rightarrow> bool" where
  "is_hex_char c = (c \<in> set ''0123456789abcdefABCDEF'')"

definition traceparent_rule_spec :: "string \<Rightarrow> bool" where
  "traceparent_rule_spec header =
     (let parts = split_on CHR ''-'' header in
      length parts = 4
      \<and> length (parts ! 1) = 32 \<and> list_all is_hex_char (parts ! 1)
      \<and> length (parts ! 2) = 16 \<and> list_all is_hex_char (parts ! 2))"

text \<open>The rule the parser enforces: four dash-separated fields, the second of 32
  characters, the third of 16.\<close>

definition traceparent_shape :: "string \<Rightarrow> string \<Rightarrow> string \<Rightarrow> bool" where
  "traceparent_shape header tid parent =
     (\<exists>v f. header = v @ ''-'' @ tid @ ''-'' @ parent @ ''-'' @ f
        \<and> CHR ''-'' \<notin> set v \<and> CHR ''-'' \<notin> set tid \<and> CHR ''-'' \<notin> set parent
        \<and> CHR ''-'' \<notin> set f
        \<and> length tid = 32 \<and> length parent = 16)"

subsection \<open>Reachable states of the tracer\<close>

text \<open>
  One call of a state-changing method. The span id a start draws from
  \<open>crypto.randomBytes\<close> is fresh: it is the id of no span the tracer holds.
\<close>

definition active_ids :: "TracingService \<Rightarrow> string set" where
  "active_ids s = fst ` set (activeSpans s)"

definition completed_ids :: "TracingService \<Rightarrow> string set" where
  "completed_ids s = spanId ` set (completedSpans s)"

definition fresh_span_id :: "TracingService \<Rightarrow> string \<Rightarrow> bool" where
  "fresh_span_id s sid = (sid \<notin> active_ids s \<and> sid \<notin> completed_ids s)"

inductive ts_step :: "TracingService \<Rightarrow> TracingService \<Rightarrow> bool" where
  step_startTrace:
    "fresh_span_id s sid \<Longrightarrow> ts_step s (fst (startTrace cfg s tid sid now rnd opName tgs))"
| step_startSpan:
    "fresh_span_id s sid \<Longrightarrow> ts_step s (fst (startSpan cfg s sid now tid parent opName tgs))"
| step_endSpan:
    "ts_step s (fst (endSpan cfg s now sid st tgs))"
| step_addSpanLog:
    "ts_step s (addSpanLog s now sid msg dat)"
| step_addSpanTags:
    "ts_step s (addSpanTags s sid tgs')"

inductive ts_reachable :: "TracingService \<Rightarrow> bool" where
  reach_new: "ts_reachable (newTracingService en rate)"
| reach_step: "ts_reachable s \<Longrightarrow> ts_step s s' \<Longrightarrow> ts_reachable s'"

subsection \<open>Trace detail route\<close>

text \<open>
  The handler of \<open>GET /traces/:traceId\<close>. \<open>endTime || Date.now()\<close> takes the clock
  when the end time is \<open>null\<close> or \<open>0\<close>. Nothing in the \<open>try\<close> block raises, so
  the 500 response is not produced.
\<close>

record TraceDetail =
  td_traceId :: string
  td_spans :: "Span list"
  totalSpans :: nat
  td_duration :: int

datatype 'a http_response = Status404 | Status200 'a | Status500

definition end_or_now :: "int option \<Rightarrow> int \<Rightarrow> int" where
  "end_or_now e now = (case e of None \<Rightarrow> now | Some t \<Rightarrow> if t = 0 then now else t)"

definition traceDetailHandler :: "TracingService \<Rightarrow> int \<Rightarrow> string \<Rightarrow> TraceDetail http_response" where
  "traceDetailHandler s now tid =
     (let spans = getTrace s tid in
      if length spans = 0 then Status404
      else Status200
        \<lparr>td_traceId = tid, td_spans = spans, totalSpans = length spans,
         td_duration =
           (if length spans > 0
            then end_or_now (endTime (spans ! (length spans - 1))) now - startTime (spans ! 0)
            else 0)\<rparr>)"

section \<open>Numbers\<close>

text \<open>
  A JavaScript number is an IEEE 754 double. A finite double is modelled by the real
  number it denotes, and an arithmetic operation of the source returns the double
  nearest to the exact result, which is \<open>round_double\<close> of it: 53 significant bits,
  ties to the even significand, the exponent of the last bit not below \<open>-1074\<close>.
  A result that overflows is clamped to \<open>\<plusminus> 2 ^ 1024\<close>, the two values that stand
  for \<open>\<plusminus>Infinity\<close>; \<open>NaN\<close> is not modelled. Comparisons, \<open>Math.ceil\<close> and
  \<open>Math.max\<close> are exact on doubles.
\<close>

text \<open>The number of binary digits of a natural number.\<close>

function bit_length :: "nat \<Rightarrow> nat" where
  "bit_length n = (if n = 0 then 0 else Suc (bit_length (n div 2)))"
  by pat_completeness auto
termination
  by (relation "measure (\<lambda>n. n)") auto

declare bit_length.simps [simp del]

text \<open>The exponent \<open>e\<close> with \<open>2 ^ e \<le> a < 2 ^ (e + 1)\<close>, for \<open>a > 0\<close>.\<close>

definition binary_exponent :: "real \<Rightarrow> int" where
  "binary_exponent a =
     (if 1 \<le> a then int (bit_length (nat \<lfloor>a\<rfloor>)) - 1
      else
        (let k = bit_length (nat \<lfloor>1 / a\<rfloor>) - 1
         in if a * 2 ^ k = 1 then - int k else - int k - 1))"

definition round_half_even :: "real \<Rightarrow> int" where
  "round_half_even y =
     (let f = \<lfloor>y\<rfloor>; r = y - of_int f
      in if r < 1 / 2 then f
         else if 1 / 2 < r then f + 1
         else if even f then f else f + 1)"

text \<open>The weight of the last significand bit of the doubles around \<open>a > 0\<close>
  (subnormal below \<open>2 ^ - 1022\<close>).\<close>

definition ulp_of :: "real \<Rightarrow> real" where
  "ulp_of a = 2 powi (max (binary_exponent a) (- 1022) - 52)"

definition round53 :: "real \<Rightarrow> real" where
  "round53 x =
     (if x = 0 then 0
      else sgn x * (of_int (round_half_even (\<bar>x\<bar> / ulp_of \<bar>x\<bar>)) * ulp_of \<bar>x\<bar>))"

definition round_double :: "real \<Rightarrow> real" where
  "round_double x = min (2 ^ 1024) (max (- (2 ^ 1024)) (round53 x))"

text \<open>\<open>round53\<close> on a positive number.\<close>

definition round_pos :: "real \<Rightarrow> real" where
  "round_pos a = of_int (round_half_even (a / ulp_of a)) * ulp_of a"

section \<open>Metrics collector\<close>

record RequestMetric =
  rm_method :: string
  path :: string
  statusCode :: int
  durationMs :: real
  rm_timestamp :: int

record ErrorRecord =
  er_message :: string
  er_path :: string
  er_timestamp :: int

record DbMetrics =
  db_count :: nat
  totalDurationMs :: real
  slowCount :: nat

record MetricsCollector =
  requestMetrics :: "RequestMetric list"
  errorLog :: "ErrorRecord list"
  dbMetrics :: DbMetrics
  mc_startTime :: int

definition maxMetricsRetained :: nat where
  "maxMetricsRetained = 10000"

definition errorWindowMs :: int where
  "errorWindowMs = 60000"

definition slowQueryThresholdMs :: real where
  "slowQueryThresholdMs = 1000"

definition newMetricsCollector :: "int \<Rightarrow> MetricsCollector" where
  "newMetricsCollector now =
     \<lparr>requestMetrics = [], errorLog = [],
      dbMetrics = \<lparr>db_count = 0, totalDurationMs = 0, slowCount = 0\<rparr>,
      mc_startTime = now\<rparr>"

definition evict_metrics :: "RequestMetric list \<Rightarrow> RequestMetric list" where
  "evict_metrics xs =
     (if length xs > maxMetricsRetained then slice_last (maxMetricsRetained div 2) xs else xs)"

definition recordRequest :: "MetricsCollector \<Rightarrow> RequestMetric \<Rightarrow> MetricsCollector" where
  "recordRequest s metric = s\<lparr>requestMetrics := evict_metrics (requestMetrics s @ [metric])\<rparr>"

text \<open>\<open>recordError\<close> reads the clock twice: \<open>stamp\<close> for the record, \<open>now\<close> for
  the cutoff.\<close>

definition recordError :: "MetricsCollector \<Rightarrow> int \<Rightarrow> int \<Rightarrow> string \<Rightarrow> string \<Rightarrow> MetricsCollector" where
  "recordError s stamp now msg pth =
     s\<lparr>errorLog := filter (\<lambda>e. er_timestamp e > now - 5 * 60000)
         (errorLog s @ [\<lparr>er_message = msg, er_path = pth, er_timestamp = stamp\<rparr>])\<rparr>"

definition recordDatabaseQuery :: "MetricsCollector \<Rightarrow> real \<Rightarrow> MetricsCollector" where
  "recordDatabaseQuery s d =
     s\<lparr>dbMetrics :=
        \<lparr>db_count = db_count (dbMetrics s) + 1,
         totalDurationMs = round_double (totalDurationMs (dbMetrics s) + d),
         slowCount = (if d > slowQueryThresholdMs then slowCount (dbMetrics s) + 1
                      else slowCount (dbMetrics s))\<rparr>\<rparr>"

definition reset :: "MetricsCollector \<Rightarrow> MetricsCollector" where
  "reset s =
     s\<lparr>requestMetrics := [], errorLog := [],
       dbMetrics := \<lparr>db_count = 0, totalDurationMs = 0, slowCount = 0\<rparr>\<rparr>"

text \<open>
  \<open>percentile\<close>. \<open>p\<close> and the entries of the array are finite doubles, the length of
  the array is an integer below \<open>2 ^ 32\<close>. Each arithmetic operation of
  \<open>Math.ceil((p / 100) * sorted.length) - 1\<close> rounds its result; \<open>percentile_index\<close>
  is the number \<open>Math.max(0, idx)\<close> the array is read at. A read at a number that is
  not an index of the array is \<open>undefined\<close> in the source, \<open>None\<close> here.
\<close>

definition percentile_index :: "nat \<Rightarrow> real \<Rightarrow> real" where
  "percentile_index n p =
     (let idx = round_double (of_int \<lceil>round_double (round_double (p / 100) * real n)\<rceil> - 1)
      in max 0 idx)"

definition percentile :: "real list \<Rightarrow> real \<Rightarrow> real option" where
  "percentile srt p =
     (if length srt = 0 then Some 0
      else
        (let i = percentile_index (length srt) p
         in if of_int \<lfloor>i\<rfloor> = i \<and> i < real (length srt) then Some (srt ! nat \<lfloor>i\<rfloor>)
            else None))"

definition getErrorRate :: "MetricsCollector \<Rightarrow> int \<Rightarrow> nat" where
  "getErrorRate s now = length (filter (\<lambda>e. er_timestamp e > now - errorWindowMs) (errorLog s))"

text \<open>The duration part of \<open>getSummary\<close>: the retained durations in ascending order
  and the two percentiles read from them.\<close>

definition durations :: "MetricsCollector \<Rightarrow> real list" where
  "durations s = sort (map durationMs (requestMetrics s))"

definition p95DurationMs :: "MetricsCollector \<Rightarrow> real option" where
  "p95DurationMs s = percentile (durations s) 95"

definition p99DurationMs :: "MetricsCollector \<Rightarrow> real option" where
  "p99DurationMs s = percentile (durations s) 99"

inductive mc_reachable :: "MetricsCollector \<Rightarrow> bool" where
  mc_new: "mc_reachable (newMetricsCollector now)"
| mc_recordRequest: "mc_reachable s \<Longrightarrow> mc_reachable (recordRequest s metric)"
| mc_recordError: "mc_reachable s \<Longrightarrow> mc_reachable (recordError s stamp now msg pth)"
| mc_recordDatabaseQuery: "mc_reachable s \<Longrightarrow> mc_reachable (recordDatabaseQuery s d)"
| mc_reset: "mc_reachable s \<Longrightarrow> mc_reachable (reset s)"

section \<open>Alerting service\<close>

datatype alert_type = error_rate | response_time | service_down | custom

datatype alert_severity = info | warning | critical



record Alert =
  alert_id :: string
  alert_type :: alert_type
  severity :: alert_severity
  title :: string
  alert_message :: string
  alert_timestamp :: int
  metadata :: "(string \<times> json) list"
  acknowledged :: bool


record AlertingService =
  alerts :: "Alert list"
  lastAlertTime :: "(string \<times> int) list"



text \<open>Decimal rendering of a number in a template string.\<close>

definition digit_char :: "nat \<Rightarrow> char" where
  "digit_char n = ''0123456789'' ! n"

function digits_of_nat :: "nat \<Rightarrow> string" where
  "digits_of_nat n =
     (if n < 10 then [digit_char n]
      else digits_of_nat (n div 10) @ [digit_char (n mod 10)])"
  by pat_completeness auto
termination
  by (relation "measure (\<lambda>n. n)") auto

definition string_of_int :: "int \<Rightarrow> string" where
  "string_of_int i =
     (if i < 0 then CHR ''-'' # digits_of_nat (nat (- i)) else digits_of_nat (nat i))"




record AlertFilter =
  f_severity :: "alert_severity option"
  f_type :: "alert_type option"
  f_acknowledged :: "bool option"
  f_limit :: "int option"

text \<open>\<open>xs.slice(0, k)\<close> for an integer \<open>k\<close>: a negative \<open>k\<close> counts from the end.\<close>

definition slice_to :: "int \<Rightarrow> 'a list \<Rightarrow> 'a list" where
  "slice_to k xs = (if k < 0 then take (nat (int (length xs) + k)) xs else take (nat k) xs)"

text \<open>\<open>filter?.f\<close>: the field of the filter, absent when the filter is.\<close>

definition filter_field :: "AlertFilter option \<Rightarrow> (AlertFilter \<Rightarrow> 'a option) \<Rightarrow> 'a option" where
  "filter_field flt f = (case flt of None \<Rightarrow> None | Some r \<Rightarrow> f r)"

text \<open>The alerts that pass the severity, type and acknowledgement filters, in store
  order.\<close>

definition matching_alerts :: "AlertingService \<Rightarrow> AlertFilter option \<Rightarrow> Alert list" where
  "matching_alerts s flt =
     (let r0 = alerts s;
          r1 = (case filter_field flt f_severity of
                  None \<Rightarrow> r0 | Some sv \<Rightarrow> filter (\<lambda>a. severity a = sv) r0);
          r2 = (case filter_field flt f_type of
                  None \<Rightarrow> r1 | Some t \<Rightarrow> filter (\<lambda>a. alert_type a = t) r1);
          r3 = (case filter_field flt f_acknowledged of
                  None \<Rightarrow> r2 | Some b \<Rightarrow> filter (\<lambda>a. acknowledged a = b) r2)
      in r3)"

text \<open>\<open>filter?.limit || 50\<close>.\<close>

definition limit_or_default :: "AlertFilter option \<Rightarrow> int" where
  "limit_or_default flt =
     (case filter_field flt f_limit of None \<Rightarrow> 50 | Some k \<Rightarrow> if k = 0 then 50 else k)"

text \<open>\<open>getAlerts\<close>: the comparator \<open>b.timestamp - a.timestamp\<close> sorts newest first,
  keeping store order among equal timestamps.\<close>

definition getAlerts :: "AlertingService \<Rightarrow> AlertFilter option \<Rightarrow> Alert list" where
  "getAlerts s flt =
     slice_to (limit_or_default flt)
       (sort_key (\<lambda>a. - alert_timestamp a) (matching_alerts s flt))"

fun acknowledge_first :: "string \<Rightarrow> Alert list \<Rightarrow> Alert list" where
  "acknowledge_first aid [] = []"
| "acknowledge_first aid (a # as) =
     (if alert_id a = aid then a\<lparr>acknowledged := True\<rparr> # as
      else a # acknowledge_first aid as)"

definition acknowledgeAlert :: "AlertingService \<Rightarrow> string \<Rightarrow> AlertingService \<times> bool" where
  "acknowledgeAlert s aid =
     (case find (\<lambda>a. alert_id a = aid) (alerts s) of
        None \<Rightarrow> (s, False)
      | Some a \<Rightarrow> (s\<lparr>alerts := acknowledge_first aid (alerts s)\<rparr>, True))"

section \<open>Export to Elasticsearch\<close>

text \<open>
  A thrown value is its message. \<open>fetch\<close> either rejects (a network error) or
  resolves to a response with its \<open>ok\<close> flag, status and status text.
  \<open>JSON.stringify\<close> is a parameter \<open>stringify\<close>, which may throw.
\<close>

type_synonym exn = string

type_synonym doc = "(string \<times> json) list"

datatype fetch_outcome = NetworkError exn | HttpResponse bool nat string

definition try_catch :: "exn + 'a \<Rightarrow> (exn \<Rightarrow> exn + 'a) \<Rightarrow> exn + 'a" where
  "try_catch body handler = (case body of Inl e \<Rightarrow> handler e | Inr v \<Rightarrow> Inr v)"

fun truthy :: "json \<Rightarrow> bool" where
  "truthy JNull = False"
| "truthy (JBool b) = b"
| "truthy (JNum n) = (n \<noteq> 0)"
| "truthy (JStr t) = (t \<noteq> [])"
| "truthy (JArr _) = True"
| "truthy (JObj _) = True"

fun map_result :: "('a \<Rightarrow> exn + 'b) \<Rightarrow> 'a list \<Rightarrow> exn + 'b list" where
  "map_result f [] = Inr []"
| "map_result f (x # xs) =
     (case f x of
        Inl e \<Rightarrow> Inl e
      | Inr y \<Rightarrow> (case map_result f xs of Inl e \<Rightarrow> Inl e | Inr ys \<Rightarrow> Inr (y # ys)))"

fun join_on :: "string \<Rightarrow> string list \<Rightarrow> string" where
  "join_on sep [] = []"
| "join_on sep [x] = x"
| "join_on sep (x # y # ys) = x @ sep @ join_on sep (y # ys)"

record ElasticsearchTransport =
  buffer :: "doc list"
  esUrl :: string
  indexPrefix :: string
  authHeader :: "string option"

record BulkRequest =
  req_url :: string
  req_headers :: "(string \<times> string) list"
  req_body :: string

definition bufferLimit :: nat where
  "bufferLimit = 100"

text \<open>What a call of \<open>flush\<close> has done when it first gives up control: returned at
  once on an empty buffer, thrown inside the \<open>try\<close> block while building the body,
  or issued the one \<open>fetch\<close> it awaits.\<close>

datatype flush_pending = NothingToFlush | ThrownInTry exn | Awaiting BulkRequest

definition bulk_lines :: "(json \<Rightarrow> exn + string) \<Rightarrow> string \<Rightarrow> doc \<Rightarrow> exn + string" where
  "bulk_lines stringify pfx d =
     (let index = (case map_of d ''index'' of
                     None \<Rightarrow> JStr (pfx @ ''-logs'')
                   | Some v \<Rightarrow> if truthy v then v else JStr (pfx @ ''-logs''))
      in case stringify (JObj [(''index'', JObj [(''_index'', index)])]) of
           Inl e \<Rightarrow> Inl e
         | Inr action \<Rightarrow>
             (case stringify (JObj d) of
                Inl e \<Rightarrow> Inl e
              | Inr source \<Rightarrow> Inr (action @ [CHR 0x0A] @ source)))"

definition bulk_request ::
  "(json \<Rightarrow> exn + string) \<Rightarrow> ElasticsearchTransport \<Rightarrow> doc list \<Rightarrow> exn + BulkRequest" where
  "bulk_request stringify s docs =
     (case map_result (bulk_lines stringify (indexPrefix s)) docs of
        Inl e \<Rightarrow> Inl e
      | Inr ls \<Rightarrow>
          Inr \<lparr>req_url = esUrl s @ ''/_bulk'',
               req_headers =
                 (case authHeader s of
                    None \<Rightarrow> [(''Content-Type'', ''application/x-ndjson'')]
                  | Some a \<Rightarrow> [(''Content-Type'', ''application/x-ndjson''), (''Authorization'', a)]),
               req_body = join_on [CHR 0x0A] ls @ [CHR 0x0A]\<rparr>)"

text \<open>The synchronous part of \<open>flush\<close>, up to the \<open>await\<close>: the buffer is copied
  and emptied before the \<open>try\<close> block is entered.\<close>

definition flush_begin ::
  "(json \<Rightarrow> exn + string) \<Rightarrow> ElasticsearchTransport \<Rightarrow> ElasticsearchTransport \<times> flush_pending" where
  "flush_begin stringify s =
     (if length (buffer s) = 0 then (s, NothingToFlush)
      else
        (let docs = buffer s;
             s' = s\<lparr>buffer := []\<rparr>
         in (s', case bulk_request stringify s' docs of
                   Inl e \<Rightarrow> ThrownInTry e
                 | Inr req \<Rightarrow> Awaiting req)))"

text \<open>
  The rest of \<open>flush\<close>, run when the awaited \<open>fetch\<close> settles, on whatever the
  transport's state is by then. The result is \<open>Inl\<close> when the promise of \<open>flush\<close>
  rejects, otherwise the state it leaves and the lines written with \<open>console.error\<close>.
\<close>

definition flush_settle ::
  "ElasticsearchTransport \<Rightarrow> flush_pending \<Rightarrow> fetch_outcome \<Rightarrow>
   exn + (ElasticsearchTransport \<times> string list)" where
  "flush_settle s pending outcome =
     (case pending of
        NothingToFlush \<Rightarrow> Inr (s, [])
      | _ \<Rightarrow>
        try_catch
          (case pending of
             ThrownInTry e \<Rightarrow> Inl e
           | _ \<Rightarrow>
             (case outcome of
                NetworkError e \<Rightarrow> Inl e
              | HttpResponse okf code txt \<Rightarrow>
                  if \<not> okf
                  then Inr (s, [''Elasticsearch bulk insert failed: '' @ string_of_int (int code)
                                 @ '' '' @ txt])
                  else Inr (s, [])))
          (\<lambda>e. Inr (s, [''Failed to ship logs to Elasticsearch: '' @ e])))"

text \<open>\<open>log\<close>; \<open>iso1\<close> and \<open>iso2\<close> are the two \<open>new Date().toISOString()\<close>
  readings. The document is the entry with \<open>@timestamp\<close> and \<open>index\<close> written
  into it: a key the entry has keeps its place, a new one is enumerated last (neither
  key is integer-like). The \<open>logged\<close> event and the callback change no state.\<close>

definition log_document :: "ElasticsearchTransport \<Rightarrow> string \<Rightarrow> string \<Rightarrow> doc \<Rightarrow> doc" where
  "log_document s iso1 iso2 entry =
     AList.update ''index''
       (JStr (indexPrefix s @ ''-logs-'' @ hd (split_on CHR ''T'' iso2)))
       (AList.update ''@timestamp''
          (case map_of entry ''timestamp'' of
             None \<Rightarrow> JStr iso1
           | Some v \<Rightarrow> if truthy v then v else JStr iso1)
          entry)"

definition es_log ::
  "(json \<Rightarrow> exn + string) \<Rightarrow> ElasticsearchTransport \<Rightarrow> string \<Rightarrow> string \<Rightarrow> doc \<Rightarrow>
   ElasticsearchTransport \<times> flush_pending" where
  "es_log stringify s iso1 iso2 entry =
     (let d = log_document s iso1 iso2 entry;
          s1 = s\<lparr>buffer := buffer s @ [d]\<rparr>
      in if length (buffer s1) \<ge> bufferLimit then flush_begin stringify s1
         else (s1, NothingToFlush))"

text \<open>
  \<open>shipSpan\<close>: everything happens inside \<open>try\<close>, and the \<open>catch\<close> block is empty.
  \<open>prepare\<close> builds the request (index name, headers, body) and may throw; the
  response is not inspected.
\<close>

definition shipSpan :: "(Span \<Rightarrow> exn + BulkRequest) \<Rightarrow> Span \<Rightarrow> fetch_outcome \<Rightarrow> exn + unit" where
  "shipSpan prepare sp outcome =
     try_catch
       (case prepare sp of
          Inl e \<Rightarrow> Inl e
        | Inr req \<Rightarrow>
            (case outcome of
               NetworkError e \<Rightarrow> Inl e
             | HttpResponse okf code txt \<Rightarrow> Inr ()))
       (\<lambda>e. Inr ())"

section \<open>Invariants and example runs\<close>

text \<open>Every entry of the active set is stored under its own span id.\<close>

definition keyed :: "TracingService \<Rightarrow> bool" where
  "keyed s = (\<forall>(k, sp) \<in> set (activeSpans s). spanId sp = k)"

text \<open>The span \<open>startTrace\<close> records for a sampled root, the span \<open>startSpan\<close>
  records, and the trace ids of the spans a tracer holds.\<close>

definition root_span :: "MonitoringConfig \<Rightarrow> string \<Rightarrow> string \<Rightarrow> int \<Rightarrow> string \<Rightarrow> tag_record option \<Rightarrow> Span" where
  "root_span cfg tid sid now opName tgs =
     \<lparr>spanId = sid, traceId = tid, parentSpanId = None,
      operationName = opName, serviceName = SERVICE_NAME cfg,
      startTime = now, endTime = None, duration = None,
      status = in_progress, tags = spread_tags tgs, logs = []\<rparr>"

definition child_span :: "MonitoringConfig \<Rightarrow> string \<Rightarrow> string \<Rightarrow> string \<Rightarrow> int \<Rightarrow> string \<Rightarrow> tag_record option \<Rightarrow> Span" where
  "child_span cfg tid parent sid now opName tgs =
     \<lparr>spanId = sid, traceId = tid, parentSpanId = Some parent,
      operationName = opName, serviceName = SERVICE_NAME cfg,
      startTime = now, endTime = None, duration = None,
      status = in_progress, tags = spread_tags tgs, logs = []\<rparr>"

definition trace_ids :: "TracingService \<Rightarrow> string set" where
  "trace_ids s = traceId ` (snd ` set (activeSpans s) \<union> set (completedSpans s))"

text \<open>A run of the tracer in which \<open>n\<close> child spans of one trace are started and
  ended one after the other, the \<open>i\<close>-th under the id made of \<open>i\<close> letters.\<close>

fun sequential_spans :: "MonitoringConfig \<Rightarrow> nat \<Rightarrow> TracingService" where
  "sequential_spans cfg 0 = newTracingService True 1"
| "sequential_spans cfg (Suc n) =
     fst (endSpan cfg
            (fst (startSpan cfg (sequential_spans cfg n) (replicate (Suc n) CHR ''a'') 10
                    ''t1'' ''p0'' ''op'' None))
            20 (replicate (Suc n) CHR ''a'') ok None)"

text \<open>A configuration, a request metric and a small run: a sampled root span, a
  child started under it, the child ended.\<close>

definition example_config :: MonitoringConfig where
  "example_config =
     \<lparr>SERVICE_NAME = ''payd'', ELASTICSEARCH_ENABLED = True, ALERT_COOLDOWN_MS = 300000,
      ALERT_EMAIL_ENABLED = False\<rparr>"

definition example_metric :: RequestMetric where
  "example_metric =
     \<lparr>rm_method = ''GET'', path = ''/api'', statusCode = 200, durationMs = 12,
      rm_timestamp = 1000\<rparr>"

definition example_root :: TracingService where
  "example_root =
     fst (startTrace example_config (newTracingService True 1) ''t1'' ''r1'' 10 (1/2)
            ''GET /x'' None)"

definition example_child :: TracingService where
  "example_child = fst (startSpan example_config example_root ''c1'' 12 ''t1'' ''r1'' ''db'' None)"

definition example_trace :: TracingService where
  "example_trace = fst (endSpan example_config example_child 15 ''c1'' ok None)"




definition example_first_alert :: Alert where
  "example_first_alert =
     \<lparr>alert_id = ''alert-1000-k3x9ab'', alert_type = error_rate,
      severity = critical, title = ''High Error Rate Detected'',
      alert_message = ''Error rate is 25 errors/min'', alert_timestamp = 1001,
      metadata = [], acknowledged = False\<rparr>"


text \<open>A call of \<open>getAlerts\<close> with no positive limit (no filter, no \<open>limit\<close>
  field, or the limit \<open>0\<close>), and an alert passing the three other filters.\<close>

definition no_positive_limit :: "AlertFilter option \<Rightarrow> bool" where
  "no_positive_limit flt =
     (case flt of None \<Rightarrow> True | Some r \<Rightarrow> f_limit r = None \<or> f_limit r = Some 0)"

definition passes_filter :: "AlertFilter option \<Rightarrow> Alert \<Rightarrow> bool" where
  "passes_filter flt a =
     ((case filter_field flt f_severity of None \<Rightarrow> True | Some sv \<Rightarrow> severity a = sv)
      \<and> (case filter_field flt f_type of None \<Rightarrow> True | Some t \<Rightarrow> alert_type a = t)
      \<and> (case filter_field flt f_acknowledged of None \<Rightarrow> True | Some b \<Rightarrow> acknowledged a = b))"

text \<open>A store of \<open>n\<close> alerts stamped \<open>0\<close> to \<open>n - 1\<close>.\<close>

definition example_store :: "nat \<Rightarrow> AlertingService" where
  "example_store n =
     \<lparr>alerts = map (\<lambda>i. example_first_alert\<lparr>alert_timestamp := int i\<rparr>) [0..<n],
      lastAlertTime = [(''error_rate:critical'', 1000)]\<rparr>"

text \<open>The duration of a trace in the words of the specification: from the start of
  the root span (the span without parent) to the latest end time among the spans, a
  span that is still open counting as ending now. The last definition closes the root
  of the example run at clock reading 100.\<close>

definition span_end_or_now :: "int \<Rightarrow> Span \<Rightarrow> int" where
  "span_end_or_now now sp = (case endTime sp of None \<Rightarrow> now | Some e \<Rightarrow> e)"

definition trace_duration_spec :: "Span list \<Rightarrow> int \<Rightarrow> int option" where
  "trace_duration_spec spans now =
     (case find (\<lambda>sp. parentSpanId sp = None) spans of
        None \<Rightarrow> None
      | Some rt \<Rightarrow>
          Some (fold max (map (span_end_or_now now) spans) (span_end_or_now now rt)
                - startTime rt))"

definition example_done :: TracingService where
  "example_done = fst (endSpan example_config example_trace 100 ''r1'' ok None)"

text \<open>A failed export: the request is rejected, or answered with a status outside
  2xx.\<close>

definition export_failed :: "fetch_outcome \<Rightarrow> bool" where
  "export_failed outcome =
     (case outcome of NetworkError e \<Rightarrow> True | HttpResponse okf code txt \<Rightarrow> \<not> okf)"

text \<open>A transport holding one buffered record, and a \<open>stringify\<close> for it.\<close>

definition example_transport :: ElasticsearchTransport where
  "example_transport =
     \<lparr>buffer = [[(''message'', JStr ''started''), (''index'', JStr ''payd-logs-2026-01-01'')]],
      esUrl = ''http://es:9200'', indexPrefix = ''payd'', authHeader = None\<rparr>"

definition example_stringify :: "json \<Rightarrow> exn + string" where
  "example_stringify j = (case j of JObj kvs \<Rightarrow> Inr ''{}'' | _ \<Rightarrow> Inl ''TypeError'')"

text \<open>The percentile as the specification words it: the durations sorted ascending,
  read at index \<open>max(0, ceil(p/100 \<times> n) - 1)\<close>, the quotient and the product being
  those of the real numbers; \<open>0\<close> for an empty input.\<close>

definition nearest_rank_spec :: "real list \<Rightarrow> real \<Rightarrow> real" where
  "nearest_rank_spec ds p =
     (if ds = [] then 0
      else sort ds ! nat (max 0 (\<lceil>(p / 100) * real (length ds)\<rceil> - 1)))"

text \<open>The durations \<open>1, 2, \<dots>, 100\<close>.\<close>

definition one_to_hundred :: "real list" where
  "one_to_hundred = map real [1..<101]"

section \<open>Helper lemmas: eviction and the tracer's invariants\<close>

lemma length_slice_last: "length (slice_last k xs) = min k (length xs)"
  by (simp add: slice_last_def)

lemma set_slice_last: "set (slice_last k xs) \<subseteq> set xs"
  by (simp add: slice_last_def set_drop_subset)

lemma slice_last_snoc: "0 < k \<Longrightarrow> slice_last k (xs @ [x]) = drop (Suc (length xs) - k) xs @ [x]"
  by (simp add: slice_last_def)

lemma length_evict_metrics: "length (evict_metrics xs) \<le> maxMetricsRetained"
  by (simp add: evict_metrics_def length_slice_last maxMetricsRetained_def)

lemma length_evict_completed: "length (evict_completed xs) \<le> maxCompletedSpans"
  by (simp add: evict_completed_def length_slice_last maxCompletedSpans_def)

lemma evict_completed_snoc:
  "\<exists>k. evict_completed (xs @ [x]) = drop k xs @ [x]"
proof (cases "length (xs @ [x]) > maxCompletedSpans")
  case True
  then have "evict_completed (xs @ [x]) = drop (Suc (length xs) - maxCompletedSpans div 2) xs @ [x]"
    by (simp add: evict_completed_def slice_last_snoc maxCompletedSpans_def)
  then show ?thesis by blast
next
  case False
  then have "evict_completed (xs @ [x]) = drop 0 xs @ [x]"
    by (simp add: evict_completed_def)
  then show ?thesis by blast
qed

lemma mc_reachable_bound: "mc_reachable s \<Longrightarrow> length (requestMetrics s) \<le> maxMetricsRetained"
proof (induction rule: mc_reachable.induct)
  case (mc_new now)
  then show ?case by (simp add: newMetricsCollector_def)
next
  case (mc_recordRequest s metric)
  then show ?case by (simp add: recordRequest_def length_evict_metrics)
next
  case (mc_recordError s stamp now msg pth)
  then show ?case by (simp add: recordError_def)
next
  case (mc_recordDatabaseQuery s d)
  then show ?case by (simp add: recordDatabaseQuery_def)
next
  case (mc_reset s)
  then show ?case by (simp add: reset_def)
qed

lemma set_alist_update: "set (AList.update k v al) \<subseteq> insert (k, v) (set al)"
  by (induction al) auto

lemma keys_alist_update: "fst ` set (AList.update k v al) = insert k (fst ` set al)"
  using AList.dom_update [of k v al] by simp

lemma keys_alist_delete: "fst ` set (AList.delete k al) = fst ` set al - {k}"
  by (auto simp: AList.delete_eq image_iff)

lemma set_alist_delete: "set (AList.delete k al) \<subseteq> set al"
  by (auto simp: AList.delete_eq)

lemma completed_step:
  assumes "ts_step s s'"
  shows "\<exists>k new. completedSpans s' = drop k (completedSpans s) @ new
           \<and> (new = [] \<or> (\<exists>sid sp now st tgs. map_of (activeSpans s) sid = Some sp \<and> new = [close_span sp now st tgs]))"
  using assms
proof (cases rule: ts_step.cases)
  case (step_startTrace sid cfg tid now rnd opName tgs)
  then have "completedSpans s' = drop 0 (completedSpans s) @ []"
    by (simp add: startTrace_def)
  then show ?thesis by blast
next
  case (step_startSpan sid cfg now tid parent opName tgs)
  then have "completedSpans s' = drop 0 (completedSpans s) @ []"
    by (simp add: startSpan_def)
  then show ?thesis by blast
next
  case (step_endSpan cfg now sid st tgs)
  show ?thesis
  proof (cases "map_of (activeSpans s) sid")
    case None
    with step_endSpan have "completedSpans s' = drop 0 (completedSpans s) @ []"
      by (simp add: endSpan_def)
    then show ?thesis by blast
  next
    case (Some sp)
    obtain k where "evict_completed (completedSpans s @ [close_span sp now st tgs])
                    = drop k (completedSpans s) @ [close_span sp now st tgs]"
      using evict_completed_snoc by blast
    with step_endSpan Some have "completedSpans s' = drop k (completedSpans s) @ [close_span sp now st tgs]"
      by (simp add: endSpan_def Let_def)
    with Some show ?thesis by blast
  qed
next
  case (step_addSpanLog now sid msg dat)
  then have "completedSpans s' = drop 0 (completedSpans s) @ []"
    by (simp add: addSpanLog_def split: option.splits)
  then show ?thesis by blast
next
  case (step_addSpanTags sid tgs')
  then have "completedSpans s' = drop 0 (completedSpans s) @ []"
    by (simp add: addSpanTags_def split: option.splits)
  then show ?thesis by blast
qed

lemma spanId_close_span: "spanId (close_span sp now st tgs) = spanId sp"
  by (simp add: close_span_def)

lemma keyed_step:
  assumes "ts_step s s'" "keyed s"
  shows "keyed s'"
  using assms
proof (cases rule: ts_step.cases)
  case (step_startTrace sid cfg tid now rnd opName tgs)
  then show ?thesis using assms(2) set_alist_update
    by (fastforce simp: keyed_def startTrace_def)
next
  case (step_startSpan sid cfg now tid parent opName tgs)
  then show ?thesis using assms(2) set_alist_update
    by (fastforce simp: keyed_def startSpan_def)
next
  case (step_endSpan cfg now sid st tgs)
  then show ?thesis using assms(2) set_alist_delete
    by (fastforce simp: keyed_def endSpan_def Let_def split: option.splits)
next
  case (step_addSpanLog now sid msg dat)
  show ?thesis
  proof (cases "map_of (activeSpans s) sid")
    case None
    with step_addSpanLog assms(2) show ?thesis by (simp add: addSpanLog_def)
  next
    case (Some sp)
    then have "(sid, sp) \<in> set (activeSpans s)" by (rule map_of_SomeD)
    then have "spanId sp = sid" using assms(2) by (auto simp: keyed_def)
    with step_addSpanLog Some assms(2) set_alist_update show ?thesis
      by (fastforce simp: keyed_def addSpanLog_def)
  qed
next
  case (step_addSpanTags sid tgs')
  show ?thesis
  proof (cases "map_of (activeSpans s) sid")
    case None
    with step_addSpanTags assms(2) show ?thesis by (simp add: addSpanTags_def)
  next
    case (Some sp)
    then have "(sid, sp) \<in> set (activeSpans s)" by (rule map_of_SomeD)
    then have "spanId sp = sid" using assms(2) by (auto simp: keyed_def)
    with step_addSpanTags Some assms(2) set_alist_update show ?thesis
      by (fastforce simp: keyed_def addSpanTags_def)
  qed
qed


lemma set_evict_completed: "set (evict_completed xs) \<subseteq> set xs"
  using set_slice_last [of "maxCompletedSpans div 2" xs] by (simp add: evict_completed_def)

lemma disjoint_step:
  assumes "ts_step s s'" "keyed s" "active_ids s \<inter> completed_ids s = {}"
  shows "active_ids s' \<inter> completed_ids s' = {}"
  using assms(1)
proof (cases rule: ts_step.cases)
  case (step_startTrace sid cfg tid now rnd opName tgs)
  then show ?thesis using assms(3)
    by (auto simp: startTrace_def active_ids_def completed_ids_def fresh_span_id_def
          keys_alist_update)
next
  case (step_startSpan sid cfg now tid parent opName tgs)
  then show ?thesis using assms(3)
    by (auto simp: startSpan_def active_ids_def completed_ids_def fresh_span_id_def
          keys_alist_update)
next
  case (step_endSpan cfg now sid st tgs)
  show ?thesis
  proof (cases "map_of (activeSpans s) sid")
    case None
    with step_endSpan assms(3) show ?thesis by (simp add: endSpan_def)
  next
    case (Some sp)
    then have "(sid, sp) \<in> set (activeSpans s)" by (rule map_of_SomeD)
    then have sid: "spanId sp = sid" using assms(2) by (auto simp: keyed_def)
    have a: "active_ids s' = active_ids s - {sid}"
      using step_endSpan Some by (simp add: endSpan_def Let_def active_ids_def keys_alist_delete)
    have "set (completedSpans s') \<subseteq> insert (close_span sp now st tgs) (set (completedSpans s))"
      using step_endSpan Some set_evict_completed [of "completedSpans s @ [close_span sp now st tgs]"]
      by (auto simp: endSpan_def Let_def)
    then have c: "completed_ids s' \<subseteq> insert sid (completed_ids s)"
      using sid by (auto simp: completed_ids_def spanId_close_span)
    from a c assms(3) show ?thesis by blast
  qed
next
  case (step_addSpanLog now sid msg dat)
  show ?thesis
  proof (cases "map_of (activeSpans s) sid")
    case None
    with step_addSpanLog assms(3) show ?thesis by (simp add: addSpanLog_def)
  next
    case (Some sp)
    then have "sid \<in> active_ids s"
      by (auto simp: active_ids_def dest: map_of_SomeD intro: rev_image_eqI)
    then have "active_ids s' = active_ids s"
      using step_addSpanLog Some by (auto simp: addSpanLog_def active_ids_def keys_alist_update)
    moreover have "completed_ids s' = completed_ids s"
      using step_addSpanLog Some by (simp add: addSpanLog_def completed_ids_def)
    ultimately show ?thesis using assms(3) by simp
  qed
next
  case (step_addSpanTags sid tgs')
  show ?thesis
  proof (cases "map_of (activeSpans s) sid")
    case None
    with step_addSpanTags assms(3) show ?thesis by (simp add: addSpanTags_def)
  next
    case (Some sp)
    then have "sid \<in> active_ids s"
      by (auto simp: active_ids_def dest: map_of_SomeD intro: rev_image_eqI)
    then have "active_ids s' = active_ids s"
      using step_addSpanTags Some by (auto simp: addSpanTags_def active_ids_def keys_alist_update)
    moreover have "completed_ids s' = completed_ids s"
      using step_addSpanTags Some by (simp add: addSpanTags_def completed_ids_def)
    ultimately show ?thesis using assms(3) by simp
  qed
qed

lemma ts_reachable_inv:
  "ts_reachable s \<Longrightarrow> keyed s \<and> active_ids s \<inter> completed_ids s = {}"
proof (induction rule: ts_reachable.induct)
  case (reach_new en rate)
  show ?case by (simp add: newTracingService_def keyed_def active_ids_def)
next
  case (reach_step s s')
  then show ?case using keyed_step disjoint_step by blast
qed

lemma completed_bound_step:
  assumes "ts_step s s'" "length (completedSpans s) \<le> maxCompletedSpans"
  shows "length (completedSpans s') \<le> maxCompletedSpans"
  using assms
  by (cases rule: ts_step.cases)
     (auto simp: startTrace_def startSpan_def endSpan_def addSpanLog_def addSpanTags_def Let_def
        length_evict_completed split: option.splits)

lemma ts_reachable_bound: "ts_reachable s \<Longrightarrow> length (completedSpans s) \<le> maxCompletedSpans"
proof (induction rule: ts_reachable.induct)
  case (reach_new en rate)
  show ?case by (simp add: newTracingService_def)
next
  case (reach_step s s')
  then show ?case using completed_bound_step by blast
qed

lemma endSpan_active:
  assumes "map_of (activeSpans s) sid = Some sp"
  shows "sid \<notin> active_ids (fst (endSpan cfg s now sid st tgs))"
    and "\<exists>k. completedSpans (fst (endSpan cfg s now sid st tgs))
              = drop k (completedSpans s) @ [close_span sp now st tgs]"
  using assms evict_completed_snoc [of "completedSpans s" "close_span sp now st tgs"]
  by (auto simp: endSpan_def Let_def active_ids_def keys_alist_delete)

lemma evict_metrics_snoc:
  assumes "length xs \<le> maxMetricsRetained"
  shows "evict_metrics (xs @ [x]) =
           (if length xs < maxMetricsRetained then xs @ [x]
            else drop (maxMetricsRetained div 2 + 1) (xs @ [x]))"
  using assms by (simp add: evict_metrics_def slice_last_def maxMetricsRetained_def)

lemma evict_completed_snoc_cases:
  assumes "length xs \<le> maxCompletedSpans"
  shows "evict_completed (xs @ [x]) =
           (if length xs < maxCompletedSpans then xs @ [x]
            else drop (maxCompletedSpans div 2 + 1) (xs @ [x]))"
  using assms by (simp add: evict_completed_def slice_last_def maxCompletedSpans_def)

lemma repeated_recordRequest:
  "n \<le> maxMetricsRetained \<Longrightarrow>
   mc_reachable (((\<lambda>s. recordRequest s m) ^^ n) (newMetricsCollector t))
   \<and> requestMetrics (((\<lambda>s. recordRequest s m) ^^ n) (newMetricsCollector t)) = replicate n m"
proof (induction n)
  case 0
  show ?case by (simp add: mc_new) (simp add: newMetricsCollector_def)
next
  case (Suc n)
  then have ih: "mc_reachable (((\<lambda>s. recordRequest s m) ^^ n) (newMetricsCollector t))"
    "requestMetrics (((\<lambda>s. recordRequest s m) ^^ n) (newMetricsCollector t)) = replicate n m"
    by simp_all
  have ev: "evict_metrics (replicate n m @ [m]) = replicate n m @ [m]"
    using Suc.prems by (simp add: evict_metrics_def)
  have r: "mc_reachable (((\<lambda>s. recordRequest s m) ^^ Suc n) (newMetricsCollector t))"
    using mc_recordRequest [OF ih(1), of m] by simp
  have "requestMetrics (((\<lambda>s. recordRequest s m) ^^ Suc n) (newMetricsCollector t))
        = evict_metrics (replicate n m @ [m])"
    using ih(2) by (simp add: recordRequest_def)
  then show ?case using r ev by (simp add: replicate_append_same)
qed

lemma replicate_letters_inj: "replicate i CHR ''a'' = replicate j CHR ''a'' \<Longrightarrow> i = j"
  by (metis length_replicate)

lemma sequential_spans_run:
  "n \<le> maxCompletedSpans \<Longrightarrow>
   ts_reachable (sequential_spans cfg n)
   \<and> enabled (sequential_spans cfg n)
   \<and> activeSpans (sequential_spans cfg n) = []
   \<and> length (completedSpans (sequential_spans cfg n)) = n
   \<and> completed_ids (sequential_spans cfg n) \<subseteq> (\<lambda>i. replicate i CHR ''a'') ` {1..n}"
proof (induction n)
  case 0
  show ?case
    by (simp add: reach_new) (simp add: newTracingService_def completed_ids_def)
next
  case (Suc n)
  let ?s = "sequential_spans cfg n"
  let ?sid = "replicate (Suc n) CHR ''a''"
  let ?s1 = "fst (startSpan cfg ?s ?sid 10 ''t1'' ''p0'' ''op'' None)"
  let ?sp = "\<lparr>spanId = ?sid, traceId = ''t1'', parentSpanId = Some ''p0'',
              operationName = ''op'', serviceName = SERVICE_NAME cfg,
              startTime = 10, endTime = None, duration = None,
              status = in_progress, tags = spread_tags None, logs = []\<rparr>"
  from Suc have ih: "ts_reachable ?s" "enabled ?s" "activeSpans ?s = []"
    "length (completedSpans ?s) = n"
    "completed_ids ?s \<subseteq> (\<lambda>i. replicate i CHR ''a'') ` {1..n}"
    by simp_all
  have "?sid \<notin> (\<lambda>i. replicate i CHR ''a'') ` {1..n}"
  proof
    assume "?sid \<in> (\<lambda>i. replicate i CHR ''a'') ` {1..n}"
    then obtain i where "i \<in> {1..n}" "?sid = replicate i CHR ''a''" by blast
    then show False using replicate_letters_inj [of "Suc n" i] by simp
  qed
  then have fresh: "fresh_span_id ?s ?sid"
    using ih(3,5) by (auto simp: fresh_span_id_def active_ids_def)
  have r1: "ts_reachable ?s1"
    using ih(1) step_startSpan [OF fresh] by (rule reach_step)
  have a1: "activeSpans ?s1 = [(?sid, ?sp)]" and c1: "completedSpans ?s1 = completedSpans ?s"
    and e1: "enabled ?s1"
    using ih(2,3) by (simp_all add: startSpan_def)
  have r2: "ts_reachable (sequential_spans cfg (Suc n))"
    using r1 step_endSpan [of ?s1 cfg 20 ?sid ok None] by (simp add: reach_step)
  have ev: "evict_completed (completedSpans ?s @ [close_span ?sp 20 ok None])
            = completedSpans ?s @ [close_span ?sp 20 ok None]"
    using ih(4) Suc.prems by (simp add: evict_completed_def)
  have s2: "sequential_spans cfg (Suc n)
            = ?s1\<lparr>activeSpans := [], completedSpans := completedSpans ?s @ [close_span ?sp 20 ok None]\<rparr>"
    using a1 c1 ev by (simp add: endSpan_def Let_def)
  have "completed_ids (sequential_spans cfg (Suc n)) = insert ?sid (completed_ids ?s)"
    by (subst s2) (simp add: completed_ids_def spanId_close_span)
  also have "\<dots> \<subseteq> (\<lambda>i. replicate i CHR ''a'') ` {1..Suc n}"
  proof -
    have "?sid \<in> (\<lambda>i. replicate i CHR ''a'') ` {1..Suc n}"
      by (rule image_eqI [where x = "Suc n"]) simp_all
    moreover have "(\<lambda>i. replicate i CHR ''a'') ` {1..n} \<subseteq> (\<lambda>i. replicate i CHR ''a'') ` {1..Suc n}"
      by (rule image_mono) simp
    ultimately show ?thesis using ih(5) by blast
  qed
  finally have ids: "completed_ids (sequential_spans cfg (Suc n)) \<subseteq> (\<lambda>i. replicate i CHR ''a'') ` {1..Suc n}" .
  have en: "enabled (sequential_spans cfg (Suc n))"
    using e1 by (subst s2) simp
  have ac: "activeSpans (sequential_spans cfg (Suc n)) = []"
    by (subst s2) simp
  have ln: "length (completedSpans (sequential_spans cfg (Suc n))) = Suc n"
    using ih(4) by (subst s2) simp
  show ?case
    using r2 ids en ac ln by blast
qed


lemma letter_b_not_run_id: "''b'' \<notin> (\<lambda>i. replicate i CHR ''a'') ` {1..n}"
proof
  assume "''b'' \<in> (\<lambda>i. replicate i CHR ''a'') ` {1..n}"
  then obtain i where "''b'' = replicate i CHR ''a''" by blast
  then have "set ''b'' \<subseteq> {CHR ''a''}" by (metis set_replicate_conv_if empty_subsetI subset_refl)
  then show False by simp
qed

section \<open>Helper lemmas: the example run\<close>

lemma example_root_state:
  "example_root = \<lparr>activeSpans = [(''r1'',
       \<lparr>spanId = ''r1'', traceId = ''t1'', parentSpanId = None,
        operationName = ''GET /x'', serviceName = ''payd'',
        startTime = 10, endTime = None, duration = None,
        status = in_progress, tags = Map.empty, logs = []\<rparr>)],
     completedSpans = [], enabled = True, sampleRate = 1\<rparr>"
  by (simp add: example_root_def startTrace_def shouldSample_def newTracingService_def
        example_config_def spread_tags_def)

lemma example_child_state:
  "example_child = \<lparr>activeSpans = [(''r1'',
       \<lparr>spanId = ''r1'', traceId = ''t1'', parentSpanId = None,
        operationName = ''GET /x'', serviceName = ''payd'',
        startTime = 10, endTime = None, duration = None,
        status = in_progress, tags = Map.empty, logs = []\<rparr>),
      (''c1'',
       \<lparr>spanId = ''c1'', traceId = ''t1'', parentSpanId = Some ''r1'',
        operationName = ''db'', serviceName = ''payd'',
        startTime = 12, endTime = None, duration = None,
        status = in_progress, tags = Map.empty, logs = []\<rparr>)],
     completedSpans = [], enabled = True, sampleRate = 1\<rparr>"
  by (simp add: example_child_def example_root_state startSpan_def
        example_config_def spread_tags_def)

lemma example_trace_state:
  "example_trace = \<lparr>activeSpans = [(''r1'',
       \<lparr>spanId = ''r1'', traceId = ''t1'', parentSpanId = None,
        operationName = ''GET /x'', serviceName = ''payd'',
        startTime = 10, endTime = None, duration = None,
        status = in_progress, tags = Map.empty, logs = []\<rparr>)],
     completedSpans = [
       \<lparr>spanId = ''c1'', traceId = ''t1'', parentSpanId = Some ''r1'',
        operationName = ''db'', serviceName = ''payd'',
        startTime = 12, endTime = Some 15, duration = Some 3,
        status = ok, tags = Map.empty, logs = []\<rparr>],
     enabled = True, sampleRate = 1\<rparr>"
  by (simp add: example_trace_def example_child_state endSpan_def close_span_def
        evict_completed_def maxCompletedSpans_def Let_def)

lemma example_trace_reachable: "ts_reachable example_trace"
proof -
  have r0: "ts_reachable (newTracingService True 1)" by (rule reach_new)
  have "fresh_span_id (newTracingService True 1) ''r1''"
    by (simp add: fresh_span_id_def active_ids_def completed_ids_def newTracingService_def)
  then have "ts_step (newTracingService True 1) example_root"
    unfolding example_root_def by (rule step_startTrace)
  with r0 have r1: "ts_reachable example_root" by (rule reach_step)
  have "fresh_span_id example_root ''c1''"
    by (simp add: fresh_span_id_def active_ids_def completed_ids_def example_root_state)
  then have "ts_step example_root example_child"
    unfolding example_child_def by (rule step_startSpan)
  with r1 have r2: "ts_reachable example_child" by (rule reach_step)
  have "ts_step example_child example_trace"
    unfolding example_trace_def by (rule step_endSpan)
  with r2 show ?thesis by (rule reach_step)
qed

section \<open>Helper lemmas: what the starts record\<close>

lemma map_of_alist_update: "map_of (AList.update k v al) k = Some v"
  by (simp add: AList.update_conv')

lemma active_in_getTrace:
  assumes "map_of (activeSpans s) sid = Some sp" "traceId sp = tid"
  shows "sp \<in> set (getTrace s tid)"
proof -
  from assms(1) have "(sid, sp) \<in> set (activeSpans s)" by (rule map_of_SomeD)
  then have "sp \<in> snd ` set (activeSpans s)" by (rule image_eqI [rotated]) simp
  with assms(2) show ?thesis by (simp add: getTrace_def)
qed

lemma getTrace_unknown:
  assumes "tid \<notin> trace_ids s"
  shows "getTrace s tid = []"
proof -
  have "filter (\<lambda>sp. traceId sp = tid) (map snd (activeSpans s)) = []"
    using assms by (auto simp: trace_ids_def filter_empty_conv)
  moreover have "filter (\<lambda>sp. traceId sp = tid) (completedSpans s) = []"
    using assms by (auto simp: trace_ids_def filter_empty_conv)
  ultimately show ?thesis by (simp add: getTrace_def)
qed

lemma startTrace_sampled:
  assumes "shouldSample s rnd"
  shows "map_of (activeSpans (fst (startTrace cfg s tid sid now rnd opName tgs))) sid
           = Some (root_span cfg tid sid now opName tgs)"
  using assms by (simp add: startTrace_def root_span_def map_of_alist_update)

lemma startSpan_enabled:
  assumes "enabled s"
  shows "map_of (activeSpans (fst (startSpan cfg s sid now tid parent opName tgs))) sid
           = Some (child_span cfg tid parent sid now opName tgs)"
  using assms by (simp add: startSpan_def child_span_def map_of_alist_update)

section \<open>Sampling is decided at the root only\<close>

text \<open>
  C1, as the code has it. \<open>startTrace\<close> records its root span exactly when tracing
  is enabled and the rate is at least 1 or the draw is below the rate: in that case the
  new state is the old one with the root span stored in the active set under its id,
  and \<open>getTrace\<close> of the trace returns it; otherwise the tracer is left as it was, so
  \<open>getTrace\<close> of the new trace id is empty right after it. For a fresh span id the
  id is active after \<open>startTrace\<close> if and only if that condition holds. At rate 0
  with tracing enabled \<open>startTrace\<close> never records; with tracing enabled and a rate
  of at least 1 it always does. \<open>startSpan\<close> looks at the enabled flag only: with
  tracing enabled the new state is the old one with the child span stored in the
  active set, and \<open>getTrace\<close> returns it, whatever the draw at the root was; with
  tracing disabled it leaves the tracer as it was. Both return the context of the span
  whether or not they recorded it.
\<close>

theorem sampling_root_only:
  assumes "0 \<le> rnd"
  shows "(shouldSample s rnd \<longleftrightarrow> enabled s \<and> (1 \<le> sampleRate s \<or> rnd < sampleRate s))
       \<and> (enabled s \<and> sampleRate s = 0 \<longrightarrow> \<not> shouldSample s rnd)
       \<and> (\<not> shouldSample s rnd \<longrightarrow>
            fst (startTrace cfg s tid sid now rnd opName tgs) = s
            \<and> (tid \<notin> trace_ids s \<longrightarrow>
                 getTrace (fst (startTrace cfg s tid sid now rnd opName tgs)) tid = []))
       \<and> (enabled s \<and> 1 \<le> sampleRate s \<longrightarrow>
            root_span cfg tid sid now opName tgs
              \<in> set (getTrace (fst (startTrace cfg s tid sid now rnd opName tgs)) tid))
       \<and> (enabled s \<longrightarrow>
            sid' \<in> active_ids (fst (startSpan cfg s sid' now' tid parent opName' tgs'))
            \<and> child_span cfg tid parent sid' now' opName' tgs'
              \<in> set (getTrace (fst (startSpan cfg s sid' now' tid parent opName' tgs')) tid))
       \<and> startTrace cfg s tid sid now rnd opName tgs
            = (if enabled s \<and> (1 \<le> sampleRate s \<or> rnd < sampleRate s)
               then s\<lparr>activeSpans := AList.update sid (root_span cfg tid sid now opName tgs)
                                        (activeSpans s)\<rparr>
               else s,
               \<lparr>ctx_traceId = tid, ctx_spanId = sid, ctx_parentSpanId = None\<rparr>)
       \<and> (enabled s \<and> (1 \<le> sampleRate s \<or> rnd < sampleRate s) \<longrightarrow>
            sid \<in> active_ids (fst (startTrace cfg s tid sid now rnd opName tgs))
            \<and> map_of (activeSpans (fst (startTrace cfg s tid sid now rnd opName tgs))) sid
                = Some (root_span cfg tid sid now opName tgs)
            \<and> root_span cfg tid sid now opName tgs
                \<in> set (getTrace (fst (startTrace cfg s tid sid now rnd opName tgs)) tid))
       \<and> (sid \<notin> active_ids s \<longrightarrow>
            (sid \<in> active_ids (fst (startTrace cfg s tid sid now rnd opName tgs))
             \<longleftrightarrow> enabled s \<and> (1 \<le> sampleRate s \<or> rnd < sampleRate s)))
       \<and> startSpan cfg s sid' now' tid parent opName' tgs'
            = (if enabled s
               then s\<lparr>activeSpans := AList.update sid'
                                        (child_span cfg tid parent sid' now' opName' tgs')
                                        (activeSpans s)\<rparr>
               else s,
               \<lparr>ctx_traceId = tid, ctx_spanId = sid', ctx_parentSpanId = Some parent\<rparr>)"
proof -
  let ?c = "enabled s \<and> (1 \<le> sampleRate s \<or> rnd < sampleRate s)"
  let ?t = "fst (startTrace cfg s tid sid now rnd opName tgs)"
  have 1: "shouldSample s rnd \<longleftrightarrow> ?c"
    by (auto simp: shouldSample_def)
  have 2: "enabled s \<and> sampleRate s = 0 \<longrightarrow> \<not> shouldSample s rnd"
    using assms by (simp add: shouldSample_def)
  have 3: "?t = s" if "\<not> shouldSample s rnd"
    using that by (simp add: startTrace_def)
  have 4: "getTrace ?t tid = []" if "\<not> shouldSample s rnd" "tid \<notin> trace_ids s"
    using that 3 by (simp add: getTrace_unknown)
  have c3: "\<not> shouldSample s rnd \<longrightarrow>
            ?t = s \<and> (tid \<notin> trace_ids s \<longrightarrow> getTrace ?t tid = [])"
    using 3 4 by simp
  have 5: "root_span cfg tid sid now opName tgs \<in> set (getTrace ?t tid)"
    if "shouldSample s rnd"
    using startTrace_sampled [OF that]
    by (rule active_in_getTrace) (simp add: root_span_def)
  have c4: "enabled s \<and> 1 \<le> sampleRate s \<longrightarrow>
            root_span cfg tid sid now opName tgs \<in> set (getTrace ?t tid)"
    using 5 by (simp add: 1)
  have 6: "child_span cfg tid parent sid' now' opName' tgs'
              \<in> set (getTrace (fst (startSpan cfg s sid' now' tid parent opName' tgs')) tid)"
    if "enabled s"
    using startSpan_enabled [OF that]
    by (rule active_in_getTrace) (simp add: child_span_def)
  have 7: "sid' \<in> active_ids (fst (startSpan cfg s sid' now' tid parent opName' tgs'))"
    if "enabled s"
    using that by (simp add: startSpan_def active_ids_def keys_alist_update)
  have c5: "enabled s \<longrightarrow>
            sid' \<in> active_ids (fst (startSpan cfg s sid' now' tid parent opName' tgs'))
            \<and> child_span cfg tid parent sid' now' opName' tgs'
              \<in> set (getTrace (fst (startSpan cfg s sid' now' tid parent opName' tgs')) tid)"
    using 6 7 by simp
  have c6: "startTrace cfg s tid sid now rnd opName tgs
            = (if ?c
               then s\<lparr>activeSpans := AList.update sid (root_span cfg tid sid now opName tgs)
                                        (activeSpans s)\<rparr>
               else s,
               \<lparr>ctx_traceId = tid, ctx_spanId = sid, ctx_parentSpanId = None\<rparr>)"
    unfolding startTrace_def Let_def 1 root_span_def by simp
  have 8: "sid \<in> active_ids ?t" if "shouldSample s rnd"
    using that by (simp add: startTrace_def active_ids_def keys_alist_update)
  have c7: "?c \<longrightarrow>
            sid \<in> active_ids ?t
            \<and> map_of (activeSpans ?t) sid = Some (root_span cfg tid sid now opName tgs)
            \<and> root_span cfg tid sid now opName tgs \<in> set (getTrace ?t tid)"
    using 8 startTrace_sampled [of s rnd cfg tid sid now opName tgs] 5 unfolding 1 by simp
  have c8: "sid \<notin> active_ids s \<longrightarrow> (sid \<in> active_ids ?t \<longleftrightarrow> ?c)"
  proof (cases "shouldSample s rnd")
    case True
    with 8 show ?thesis by (simp add: 1)
  next
    case False
    with 3 show ?thesis by (simp add: 1)
  qed
  have c9: "startSpan cfg s sid' now' tid parent opName' tgs'
            = (if enabled s
               then s\<lparr>activeSpans := AList.update sid'
                                        (child_span cfg tid parent sid' now' opName' tgs')
                                        (activeSpans s)\<rparr>
               else s,
               \<lparr>ctx_traceId = tid, ctx_spanId = sid', ctx_parentSpanId = Some parent\<rparr>)"
    unfolding startSpan_def Let_def child_span_def by simp
  show ?thesis
    by (intro conjI 1 2 c3 c4 c5 c6 c7 c8 c9)
qed

text \<open>Rate 0, tracing enabled: the root is not recorded, the child started under
  the returned context is.\<close>

theorem unsampled_root_child_counterexample:
  "\<not> shouldSample (newTracingService True 0) (1/2)
   \<and> getTrace (fst (startTrace example_config (newTracingService True 0) ''t1'' ''r1'' 10 (1/2)
                     ''GET /x'' None)) ''t1'' = []
   \<and> active_ids (fst (startSpan example_config
        (fst (startTrace example_config (newTracingService True 0) ''t1'' ''r1'' 10 (1/2)
               ''GET /x'' None))
        ''c1'' 12 ''t1'' ''r1'' ''db'' None)) = {''c1''}
   \<and> map spanId (getTrace (fst (startSpan example_config
        (fst (startTrace example_config (newTracingService True 0) ''t1'' ''r1'' 10 (1/2)
               ''GET /x'' None))
        ''c1'' 12 ''t1'' ''r1'' ''db'' None)) ''t1'') = [''c1'']"
  by (simp add: shouldSample_def newTracingService_def startTrace_def startSpan_def
        getTrace_def active_ids_def)

theorem sampling_root_only_witness:
  "(0::real) \<le> 1/2
   \<and> \<not> shouldSample (newTracingService True 0) (1/2)
   \<and> fst (startTrace example_config (newTracingService True 0) ''t1'' ''r1'' 10 (1/2)
            ''GET /x'' None) = newTracingService True 0
   \<and> getTrace (fst (startTrace example_config (newTracingService True 0) ''t1'' ''r1'' 10 (1/2)
                     ''GET /x'' None)) ''t1'' = []
   \<and> root_span example_config ''t1'' ''r1'' 10 ''GET /x'' None
        \<in> set (getTrace (fst (startTrace example_config (newTracingService True 1) ''t1'' ''r1'' 10
                     (1/2) ''GET /x'' None)) ''t1'')
   \<and> child_span example_config ''t1'' ''r1'' ''c1'' 12 ''db'' None
        \<in> set (getTrace (fst (startSpan example_config (newTracingService True 0) ''c1'' 12 ''t1''
                     ''r1'' ''db'' None)) ''t1'')
   \<and> ''r1'' \<notin> active_ids (newTracingService True (3/4))
   \<and> ''r1'' \<in> active_ids (fst (startTrace example_config (newTracingService True (3/4))
                                  ''t1'' ''r1'' 10 (1/2) ''GET /x'' None))
   \<and> map_of (activeSpans (fst (startTrace example_config (newTracingService True (3/4))
                                  ''t1'' ''r1'' 10 (1/2) ''GET /x'' None))) ''r1''
       = Some (root_span example_config ''t1'' ''r1'' 10 ''GET /x'' None)
   \<and> ''r1'' \<notin> active_ids (fst (startTrace example_config (newTracingService True (1/4))
                                  ''t1'' ''r1'' 10 (1/2) ''GET /x'' None))"
proof -
  let ?q = "newTracingService True (3/4)"
  let ?l = "newTracingService True (1/4)"
  have e0: "enabled (newTracingService True 0) \<and> sampleRate (newTracingService True 0) = 0"
    and e1: "enabled (newTracingService True 1) \<and> 1 \<le> sampleRate (newTracingService True 1)"
    and n: "''t1'' \<notin> trace_ids (newTracingService True 0)"
    and eq: "enabled ?q \<and> (1 \<le> sampleRate ?q \<or> 1/2 < sampleRate ?q)"
    and el: "\<not> (enabled ?l \<and> (1 \<le> sampleRate ?l \<or> 1/2 < sampleRate ?l))"
    and fq: "''r1'' \<notin> active_ids ?q" and fl: "''r1'' \<notin> active_ids ?l"
    by (simp_all add: newTracingService_def trace_ids_def active_ids_def)
  have h: "(0::real) \<le> 1/2" by simp
  note a0 = sampling_root_only [OF h, of "newTracingService True 0" example_config "''t1''"
         "''r1''" 10 "''GET /x''" None "''c1''" 12 "''r1''" "''db''" None]
  note a1 = sampling_root_only [OF h, of "newTracingService True 1" example_config "''t1''"
         "''r1''" 10 "''GET /x''" None "''c1''" 12 "''r1''" "''db''" None]
  note aq = sampling_root_only [OF h, of ?q example_config "''t1''"
         "''r1''" 10 "''GET /x''" None "''c1''" 12 "''r1''" "''db''" None]
  note al = sampling_root_only [OF h, of ?l example_config "''t1''"
         "''r1''" 10 "''GET /x''" None "''c1''" 12 "''r1''" "''db''" None]
  note n2 = conjunct2 [THEN conjunct1]
  note n3 = conjunct2 [THEN conjunct2, THEN conjunct1]
  note n4 = conjunct2 [THEN conjunct2, THEN conjunct2, THEN conjunct1]
  note n5 = conjunct2 [THEN conjunct2, THEN conjunct2, THEN conjunct2, THEN conjunct1]
  note n7 = conjunct2 [THEN conjunct2, THEN conjunct2, THEN conjunct2, THEN conjunct2,
                       THEN conjunct2, THEN conjunct1]
  note n8 = conjunct2 [THEN conjunct2, THEN conjunct2, THEN conjunct2, THEN conjunct2,
                       THEN conjunct2, THEN conjunct2, THEN conjunct1]
  have 1: "\<not> shouldSample (newTracingService True 0) (1/2)"
    by (rule a0 [THEN n2, THEN mp, OF e0])
  note b = a0 [THEN n3, THEN mp, OF 1]
  have 2: "fst (startTrace example_config (newTracingService True 0) ''t1'' ''r1'' 10 (1/2)
            ''GET /x'' None) = newTracingService True 0"
    by (rule b [THEN conjunct1])
  have 3: "getTrace (fst (startTrace example_config (newTracingService True 0) ''t1'' ''r1'' 10
            (1/2) ''GET /x'' None)) ''t1'' = []"
    by (rule b [THEN conjunct2, THEN mp, OF n])
  note 4 = a1 [THEN n4, THEN mp, OF e1]
  note 5 = a0 [THEN n5, THEN mp, OF e0 [THEN conjunct1], THEN conjunct2]
  note c = aq [THEN n7, THEN mp, OF eq]
  note 6 = c [THEN conjunct1]
  note 7 = c [THEN conjunct2, THEN conjunct1]
  from al [THEN n8, THEN mp, OF fl] el
  have 8: "''r1'' \<notin> active_ids (fst (startTrace example_config ?l
                                  ''t1'' ''r1'' 10 (1/2) ''GET /x'' None))"
    by (simp only: simp_thms)
  show ?thesis
    by (intro conjI h 1 2 3 4 5 fq 6 7 8)
qed

section \<open>Helper lemmas: splitting a header\<close>

lemma split_on_not_Nil: "split_on d s \<noteq> []"
  by (induction s) (auto split: list.splits)

lemma split_on_no_sep: "d \<notin> set s \<Longrightarrow> split_on d s = [s]"
  by (induction s) auto

lemma split_on_append_sep: "d \<notin> set a \<Longrightarrow> split_on d (a @ d # s) = a # split_on d s"
  by (induction a) auto

lemma split_on_single: "split_on d s = [a] \<Longrightarrow> s = a \<and> d \<notin> set a"
  by (induction s arbitrary: a) (auto split: if_splits list.splits simp: split_on_not_Nil)

lemma split_on_more:
  "split_on d s = a # b # rest \<Longrightarrow> \<exists>s'. s = a @ d # s' \<and> d \<notin> set a \<and> split_on d s' = b # rest"
proof (induction s arbitrary: a)
  case Nil
  then show ?case by simp
next
  case (Cons c cs)
  show ?case
  proof (cases "c = d")
    case True
    with Cons.prems show ?thesis by auto
  next
    case False
    with Cons.prems obtain a' where a': "a = c # a'" "split_on d cs = a' # b # rest"
      by (auto split: list.splits)
    from Cons.IH [OF a'(2)] obtain s' where "cs = a' @ d # s'" "d \<notin> set a'" "split_on d s' = b # rest"
      by blast
    with a'(1) False show ?thesis by auto
  qed
qed

lemma split_on_four:
  "split_on d h = [v, t, p, f] \<longleftrightarrow>
     h = v @ [d] @ t @ [d] @ p @ [d] @ f
     \<and> d \<notin> set v \<and> d \<notin> set t \<and> d \<notin> set p \<and> d \<notin> set f"
proof
  assume a: "split_on d h = [v, t, p, f]"
  from split_on_more [OF a] obtain h1 where 1: "h = v @ d # h1" "d \<notin> set v" "split_on d h1 = [t, p, f]"
    by blast
  from split_on_more [OF 1(3)] obtain h2 where 2: "h1 = t @ d # h2" "d \<notin> set t" "split_on d h2 = [p, f]"
    by blast
  from split_on_more [OF 2(3)] obtain h3 where 3: "h2 = p @ d # h3" "d \<notin> set p" "split_on d h3 = [f]"
    by blast
  from split_on_single [OF 3(3)] have 4: "h3 = f" "d \<notin> set f" by simp_all
  from 1 2 3 4 show "h = v @ [d] @ t @ [d] @ p @ [d] @ f
     \<and> d \<notin> set v \<and> d \<notin> set t \<and> d \<notin> set p \<and> d \<notin> set f"
    by simp
next
  assume "h = v @ [d] @ t @ [d] @ p @ [d] @ f
     \<and> d \<notin> set v \<and> d \<notin> set t \<and> d \<notin> set p \<and> d \<notin> set f"
  then show "split_on d h = [v, t, p, f]"
    by (simp add: split_on_append_sep split_on_no_sep)
qed

lemma length_four: "length xs = 4 \<Longrightarrow> \<exists>a b c d. xs = [a, b, c, d]"
  by (simp add: length_Suc_conv numeral_eq_Suc) blast

lemma split_four_shape:
  assumes "split_on CHR ''-'' h = [v, t, p, f]" "length t = 32" "length p = 16"
  shows "traceparent_shape h t p"
proof -
  from assms(1) have "h = v @ ''-'' @ t @ ''-'' @ p @ ''-'' @ f
     \<and> CHR ''-'' \<notin> set v \<and> CHR ''-'' \<notin> set t \<and> CHR ''-'' \<notin> set p \<and> CHR ''-'' \<notin> set f"
    by (rule iffD1 [OF split_on_four])
  with assms(2,3) show ?thesis
    unfolding traceparent_shape_def by blast
qed

lemma shape_split_four:
  assumes "traceparent_shape h t p"
  shows "\<exists>v f. split_on CHR ''-'' h = [v, t, p, f]" and "length t = 32" and "length p = 16"
proof -
  from assms obtain v f where e: "h = v @ ''-'' @ t @ ''-'' @ p @ ''-'' @ f
     \<and> CHR ''-'' \<notin> set v \<and> CHR ''-'' \<notin> set t \<and> CHR ''-'' \<notin> set p \<and> CHR ''-'' \<notin> set f"
    and l: "length t = 32" "length p = 16"
    unfolding traceparent_shape_def by blast
  have "split_on CHR ''-'' h = [v, t, p, f]"
    by (rule iffD2 [OF split_on_four]) (rule e)
  then show "\<exists>v f. split_on CHR ''-'' h = [v, t, p, f]" by blast
  show "length t = 32" "length p = 16" by (rule l)+
qed

lemma parse_of_split:
  assumes "split_on CHR ''-'' h = [v, t, p, f]"
  shows "parseTraceparent sid h =
           (if length t = 32 \<and> length p = 16
            then Some \<lparr>ctx_traceId = t, ctx_spanId = sid, ctx_parentSpanId = Some p\<rparr>
            else None)"
proof -
  have e: "t = [] \<Longrightarrow> length t \<noteq> 32" "p = [] \<Longrightarrow> length p \<noteq> 16" by simp_all
  show ?thesis
    using e by (simp add: parseTraceparent_def assms Let_def del: length_0_conv)
qed

lemma parse_not_four:
  assumes "length (split_on CHR ''-'' h) \<noteq> 4"
  shows "parseTraceparent sid h = None"
  using assms by (simp add: parseTraceparent_def Let_def)

lemma parse_shape:
  assumes "traceparent_shape h tid parent"
  shows "parseTraceparent sid h
          = Some \<lparr>ctx_traceId = tid, ctx_spanId = sid, ctx_parentSpanId = Some parent\<rparr>"
proof -
  from shape_split_four [OF assms] obtain v f where
    "split_on CHR ''-'' h = [v, tid, parent, f]" "length tid = 32" "length parent = 16"
    by blast
  then show ?thesis by (simp add: parse_of_split)
qed

lemma parse_None_no_shape:
  assumes "\<not> (\<exists>tid parent. traceparent_shape h tid parent)"
  shows "parseTraceparent sid h = None"
proof (cases "length (split_on CHR ''-'' h) = 4")
  case False
  then show ?thesis by (rule parse_not_four)
next
  case True
  then obtain v t p f where s: "split_on CHR ''-'' h = [v, t, p, f]"
    using length_four by blast
  have "\<not> (length t = 32 \<and> length p = 16)"
    using split_four_shape [OF s] assms by blast
  then show ?thesis by (simp add: parse_of_split [OF s])
qed

lemma spec_rule_shape:
  assumes "traceparent_rule_spec h"
  shows "traceparent_shape h (split_on CHR ''-'' h ! 1) (split_on CHR ''-'' h ! 2)"
proof -
  from assms have "length (split_on CHR ''-'' h) = 4"
    by (simp add: traceparent_rule_spec_def Let_def)
  then obtain v t p f where s: "split_on CHR ''-'' h = [v, t, p, f]"
    using length_four by blast
  with assms have l: "length t = 32" "length p = 16"
    by (simp_all add: traceparent_rule_spec_def Let_def)
  from split_four_shape [OF s l] s show ?thesis by simp
qed

section \<open>Parsing the propagation header\<close>

text \<open>
  C2, as the code has it. \<open>parseTraceparent\<close> returns \<open>null\<close> exactly for the
  headers that do not consist of four dash-separated fields with a second field of 32
  characters and a third of 16; the characters are not checked to be hexadecimal. For
  a header of that shape, and so for every header that satisfies the rule of the
  specification, it returns the context whose \<open>traceId\<close> is the second field, whose
  \<open>parentSpanId\<close> is the third and whose \<open>spanId\<close> is the newly generated one.
\<close>

theorem parseTraceparent_length_rule:
  "(parseTraceparent sid h = None \<longleftrightarrow> \<not> (\<exists>tid parent. traceparent_shape h tid parent))
   \<and> (\<forall>tid parent. traceparent_shape h tid parent \<longrightarrow>
        parseTraceparent sid h
          = Some \<lparr>ctx_traceId = tid, ctx_spanId = sid, ctx_parentSpanId = Some parent\<rparr>)
   \<and> (traceparent_rule_spec h \<longrightarrow>
        parseTraceparent sid h
          = Some \<lparr>ctx_traceId = split_on CHR ''-'' h ! 1, ctx_spanId = sid,
                  ctx_parentSpanId = Some (split_on CHR ''-'' h ! 2)\<rparr>)"
proof -
  have 1: "parseTraceparent sid h = None \<longleftrightarrow> \<not> (\<exists>tid parent. traceparent_shape h tid parent)"
  proof
    assume n: "parseTraceparent sid h = None"
    show "\<not> (\<exists>tid parent. traceparent_shape h tid parent)"
    proof
      assume "\<exists>tid parent. traceparent_shape h tid parent"
      then obtain tid parent where "traceparent_shape h tid parent" by blast
      from parse_shape [OF this, of sid] n show False by simp
    qed
  next
    assume "\<not> (\<exists>tid parent. traceparent_shape h tid parent)"
    then show "parseTraceparent sid h = None" by (rule parse_None_no_shape)
  qed
  have 3: "traceparent_rule_spec h \<longrightarrow>
        parseTraceparent sid h
          = Some \<lparr>ctx_traceId = split_on CHR ''-'' h ! 1, ctx_spanId = sid,
                  ctx_parentSpanId = Some (split_on CHR ''-'' h ! 2)\<rparr>"
    using spec_rule_shape parse_shape by blast
  show ?thesis
    using 1 3 parse_shape by blast
qed

text \<open>A header whose two id fields have the right lengths and no hexadecimal
  character is accepted.\<close>

theorem parseTraceparent_hex_counterexample:
  "\<not> traceparent_rule_spec ''00-zzzzzzzzzzzzzzzzzzzzzzzzzzzzzzzz-zzzzzzzzzzzzzzzz-01''
   \<and> parseTraceparent ''00f067aa0ba902b7'' ''00-zzzzzzzzzzzzzzzzzzzzzzzzzzzzzzzz-zzzzzzzzzzzzzzzz-01''
       = Some \<lparr>ctx_traceId = ''zzzzzzzzzzzzzzzzzzzzzzzzzzzzzzzz'', ctx_spanId = ''00f067aa0ba902b7'',
               ctx_parentSpanId = Some ''zzzzzzzzzzzzzzzz''\<rparr>"
  by (simp add: traceparent_rule_spec_def parseTraceparent_def is_hex_char_def Let_def)

theorem parseTraceparent_length_rule_witness:
  "traceparent_rule_spec ''00-4bf92f3577b34da6a3ce929d0e0e4736-00f067aa0ba902b7-01''
   \<and> traceparent_shape ''00-4bf92f3577b34da6a3ce929d0e0e4736-00f067aa0ba902b7-01''
        ''4bf92f3577b34da6a3ce929d0e0e4736'' ''00f067aa0ba902b7''
   \<and> parseTraceparent ''a1b2c3d4e5f60718'' ''00-4bf92f3577b34da6a3ce929d0e0e4736-00f067aa0ba902b7-01''
       = Some \<lparr>ctx_traceId = ''4bf92f3577b34da6a3ce929d0e0e4736'', ctx_spanId = ''a1b2c3d4e5f60718'',
               ctx_parentSpanId = Some ''00f067aa0ba902b7''\<rparr>
   \<and> parseTraceparent ''a1b2c3d4e5f60718'' ''00-4bf92f35-00f067aa0ba902b7-01'' = None"
proof -
  let ?h = "''00-4bf92f3577b34da6a3ce929d0e0e4736-00f067aa0ba902b7-01''"
  have r: "traceparent_rule_spec ?h"
    by (simp add: traceparent_rule_spec_def is_hex_char_def)
  have s: "split_on CHR ''-'' ?h = [''00'', ''4bf92f3577b34da6a3ce929d0e0e4736'', ''00f067aa0ba902b7'', ''01'']"
    by simp
  have sh: "traceparent_shape ?h ''4bf92f3577b34da6a3ce929d0e0e4736'' ''00f067aa0ba902b7''"
    using spec_rule_shape [OF r] s by simp
  have n: "\<not> (\<exists>tid parent. traceparent_shape ''00-4bf92f35-00f067aa0ba902b7-01'' tid parent)"
  proof
    assume "\<exists>tid parent. traceparent_shape ''00-4bf92f35-00f067aa0ba902b7-01'' tid parent"
    then obtain tid parent where sh: "traceparent_shape ''00-4bf92f35-00f067aa0ba902b7-01'' tid parent"
      by blast
    from shape_split_four [OF sh] obtain v f where
      "split_on CHR ''-'' ''00-4bf92f35-00f067aa0ba902b7-01'' = [v, tid, parent, f]"
      and l: "length tid = 32"
      by blast
    then have "tid = ''4bf92f35''" by simp
    with l show False by simp
  qed
  from parseTraceparent_length_rule [of "''a1b2c3d4e5f60718''" ?h] sh r
       parseTraceparent_length_rule [of "''a1b2c3d4e5f60718''" "''00-4bf92f35-00f067aa0ba902b7-01''"] n
  show ?thesis by blast
qed

section \<open>Helper lemmas: the two outcomes of createAlert\<close>





section \<open>Alert cooldown\<close>



section \<open>Helper lemmas: rounding to a double\<close>

lemma bit_length_bounds:
  "0 < n \<Longrightarrow> 2 ^ (bit_length n - 1) \<le> n \<and> n < 2 ^ bit_length n"
proof (induction n rule: bit_length.induct)
  case (1 n)
  show ?case
  proof (cases "n div 2 = 0")
    case True
    with "1.prems" have "n = 1" by (simp add: div_eq_0_iff)
    then show ?thesis
      by (simp add: bit_length.simps [of "Suc 0"] bit_length.simps [of 0])
  next
    case False
    then have ih: "2 ^ (bit_length (n div 2) - 1) \<le> n div 2" "n div 2 < 2 ^ bit_length (n div 2)"
      using "1.IH" "1.prems" by simp_all
    have pos: "0 < bit_length (n div 2)"
      using False by (simp add: bit_length.simps [of "n div 2"])
    have b: "bit_length n = Suc (bit_length (n div 2))"
      using "1.prems" by (simp add: bit_length.simps [of n])
    have "2 ^ (bit_length n - 1) = 2 * 2 ^ (bit_length (n div 2) - 1)"
      using pos b by (cases "bit_length (n div 2)") simp_all
    also have "\<dots> \<le> 2 * (n div 2)" using ih(1) by simp
    also have "\<dots> \<le> n" by simp
    finally have lo: "2 ^ (bit_length n - 1) \<le> n" .
    have "n < 2 * (n div 2) + 2" by presburger
    also have "\<dots> \<le> 2 * 2 ^ bit_length (n div 2)" using ih(2) by simp
    finally have "n < 2 ^ bit_length n" using b by simp
    with lo show ?thesis by simp
  qed
qed

lemma real_nat_floor_le:
  assumes "0 \<le> y"
  shows "real (nat \<lfloor>y\<rfloor>) \<le> y"
proof -
  have "0 \<le> \<lfloor>y\<rfloor>" using assms by simp
  then have "real (nat \<lfloor>y\<rfloor>) = of_int \<lfloor>y\<rfloor>" by simp
  then show ?thesis by simp
qed

lemma real_nat_floor_gt:
  assumes "0 \<le> y"
  shows "y < real (nat \<lfloor>y\<rfloor> + 1)"
proof -
  have "0 \<le> \<lfloor>y\<rfloor>" using assms by simp
  then have "real (nat \<lfloor>y\<rfloor> + 1) = of_int \<lfloor>y\<rfloor> + 1" by simp
  then show ?thesis by linarith
qed

lemma pow2_add: "(2::real) powi (m + n) = 2 powi m * 2 powi n"
  by (simp add: power_int_add)

lemma pow2_succ: "(2::real) powi (e + 1) = 2 * 2 powi e"
  by (simp add: power_int_add)

lemma pow2_neg_nat: "(2::real) powi (- int n) = 1 / 2 ^ n"
  by (simp add: power_int_minus field_simps)

lemma pow2_split: "(2::real) powi (e + int n) = 2 ^ n * 2 powi e"
  by (simp add: power_int_add)

lemma pow2_less_cancel:
  assumes "2 powi m < (2::real) powi n"
  shows "m < n"
proof (rule ccontr)
  assume "\<not> m < n"
  then have "n \<le> m" by simp
  then have "2 powi n \<le> (2::real) powi m" by (intro power_int_increasing) simp_all
  with assms show False by simp
qed

lemma binary_exponent_bounds:
  assumes "0 < a"
  shows "2 powi binary_exponent a \<le> a" and "a < 2 powi (binary_exponent a + 1)"
proof -
  have "2 powi binary_exponent a \<le> a \<and> a < 2 powi (binary_exponent a + 1)"
  proof (cases "1 \<le> a")
    case True
    let ?n = "nat \<lfloor>a\<rfloor>"
    have n: "0 < ?n" using True by simp
    have e: "binary_exponent a = int (bit_length ?n - 1)"
    proof -
      have "0 < bit_length ?n" using n by (simp add: bit_length.simps [of ?n])
      then show ?thesis using True by (simp add: binary_exponent_def)
    qed
    have e1: "binary_exponent a + 1 = int (bit_length ?n)"
    proof -
      have "0 < bit_length ?n" using n by (simp add: bit_length.simps [of ?n])
      then show ?thesis using True by (simp add: binary_exponent_def)
    qed
    from bit_length_bounds [OF n] have lo: "2 ^ (bit_length ?n - 1) \<le> ?n"
      and hi: "?n < 2 ^ bit_length ?n" by simp_all
    have "(2::real) ^ (bit_length ?n - 1) \<le> real ?n"
      using lo by (metis of_nat_le_iff of_nat_numeral of_nat_power)
    also have "real ?n \<le> a" using True by (intro real_nat_floor_le) simp
    finally have l: "2 powi binary_exponent a \<le> a" by (simp add: e)
    have "?n + 1 \<le> 2 ^ bit_length ?n" using hi by linarith
    then have "real (?n + 1) \<le> (2::real) ^ bit_length ?n"
      by (metis of_nat_le_iff of_nat_numeral of_nat_power)
    moreover have "a < real (?n + 1)" using True by (intro real_nat_floor_gt) simp
    ultimately have "a < 2 powi (binary_exponent a + 1)" by (simp add: e1)
    with l show ?thesis by simp
  next
    case False
    let ?y = "1 / a"
    let ?n = "nat \<lfloor>?y\<rfloor>"
    define k where "k = bit_length ?n - 1"
    have y: "1 < ?y" using False assms by simp
    then have n: "0 < ?n" by simp
    have "0 < bit_length ?n" using n by (simp add: bit_length.simps [of ?n])
    then have bl: "bit_length ?n = Suc k" by (simp add: k_def)
    from bit_length_bounds [OF n] have lo: "2 ^ k \<le> ?n"
      and hi: "?n < 2 ^ Suc k" unfolding bl by simp_all
    have "(2::real) ^ k \<le> real ?n"
      using lo by (metis of_nat_le_iff of_nat_numeral of_nat_power)
    also have "real ?n \<le> ?y" using assms by (intro real_nat_floor_le) simp
    finally have ylo: "2 ^ k \<le> ?y" .
    have "?n + 1 \<le> 2 ^ Suc k" using hi by linarith
    then have "real (?n + 1) \<le> (2::real) ^ Suc k"
      by (metis of_nat_le_iff of_nat_numeral of_nat_power)
    moreover have "?y < real (?n + 1)" using assms by (intro real_nat_floor_gt) simp
    ultimately have yhi: "?y < 2 ^ Suc k" by simp
    have alo: "1 / 2 ^ Suc k < a"
      using yhi assms by (simp add: field_simps)
    have ahi: "a \<le> 1 / 2 ^ k"
      using ylo assms by (simp add: field_simps)
    have ex: "binary_exponent a = (if a * 2 ^ k = 1 then - int k else - int k - 1)"
      using False by (simp add: binary_exponent_def Let_def k_def)
    show ?thesis
    proof (cases "a * 2 ^ k = 1")
      case True
      then have e: "binary_exponent a = - int k"
        using ex by simp
      have a: "a = 1 / 2 ^ k" using True by (simp add: field_simps)
      have "2 powi (- int k) = 1 / (2::real) ^ k"
        by (rule pow2_neg_nat)
      then have 1: "2 powi binary_exponent a = a"
        unfolding e using a by simp
      have "(2::real) powi (binary_exponent a + 1) = 2 * 2 powi binary_exponent a"
        by (rule pow2_succ)
      then show ?thesis using 1 assms by simp
    next
      case ne: False
      then have e: "binary_exponent a = - int (Suc k)"
        using ex by simp
      have 1: "2 powi binary_exponent a = 1 / (2::real) ^ Suc k"
        unfolding e by (rule pow2_neg_nat)
      have "binary_exponent a + 1 = - int k" using e by simp
      then have 2: "2 powi (binary_exponent a + 1) = 1 / (2::real) ^ k"
        by (simp only: pow2_neg_nat)
      have "a \<noteq> 1 / 2 ^ k" using ne by (auto simp: field_simps)
      with ahi have "a < 1 / 2 ^ k" by simp
      with alo 1 2 show ?thesis by simp
    qed
  qed
  then show "2 powi binary_exponent a \<le> a" and "a < 2 powi (binary_exponent a + 1)"
    by simp_all
qed

lemma binary_exponent_unique:
  assumes "2 powi e \<le> a" "a < 2 powi (e + 1)"
  shows "binary_exponent a = e"
proof -
  have pos: "0 < a" using assms(1) zero_less_power_int [of "2::real" e] by linarith
  note b = binary_exponent_bounds [OF pos]
  have "2 powi e < (2::real) powi (binary_exponent a + 1)"
    using assms(1) b(2) by linarith
  then have 1: "e < binary_exponent a + 1"
    by (rule pow2_less_cancel)
  have "2 powi binary_exponent a < (2::real) powi (e + 1)"
    using assms(2) b(1) by linarith
  then have 2: "binary_exponent a < e + 1"
    by (rule pow2_less_cancel)
  from 1 2 show ?thesis by simp
qed

lemma binary_exponent_mono:
  assumes "0 < a" "a \<le> b"
  shows "binary_exponent a \<le> binary_exponent b"
proof -
  have pb: "0 < b" using assms by simp
  have "2 powi binary_exponent a < (2::real) powi (binary_exponent b + 1)"
    using binary_exponent_bounds(1) [OF assms(1)] binary_exponent_bounds(2) [OF pb] assms(2)
    by linarith
  then have "binary_exponent a < binary_exponent b + 1"
    by (rule pow2_less_cancel)
  then show ?thesis by simp
qed

lemma round_half_even_cases:
  "round_half_even y = \<lfloor>y\<rfloor> \<or> round_half_even y = \<lfloor>y\<rfloor> + 1"
  by (simp add: round_half_even_def Let_def)

lemma round_half_even_of_int [simp]: "round_half_even (of_int k) = k"
  by (simp add: round_half_even_def Let_def)

lemma round_half_even_mono:
  assumes "x \<le> y"
  shows "round_half_even x \<le> round_half_even y"
proof (cases "\<lfloor>x\<rfloor> = \<lfloor>y\<rfloor>")
  case False
  have "\<lfloor>x\<rfloor> \<le> \<lfloor>y\<rfloor>" using assms by (rule floor_mono)
  with False have "\<lfloor>x\<rfloor> + 1 \<le> \<lfloor>y\<rfloor>" by simp
  moreover have "round_half_even x \<le> \<lfloor>x\<rfloor> + 1"
    using round_half_even_cases [of x] by auto
  moreover have "\<lfloor>y\<rfloor> \<le> round_half_even y"
    using round_half_even_cases [of y] by auto
  ultimately show ?thesis by linarith
next
  case True
  have r: "x - of_int \<lfloor>y\<rfloor> \<le> y - of_int \<lfloor>y\<rfloor>" using assms by simp
  show ?thesis
    using r by (auto simp: round_half_even_def Let_def True)
qed

lemma round_half_even_ge: "of_int k \<le> y \<Longrightarrow> k \<le> round_half_even y"
  using round_half_even_mono [of "of_int k" y] by simp

lemma round_half_even_le: "y \<le> of_int k \<Longrightarrow> round_half_even y \<le> k"
  using round_half_even_mono [of y "of_int k"] by simp
lemma ulp_of_pos: "0 < ulp_of a"
  by (simp add: ulp_of_def)

lemma round53_pos: "0 < x \<Longrightarrow> round53 x = round_pos x"
  by (simp add: round53_def round_pos_def)

lemma round53_neg: "x < 0 \<Longrightarrow> round53 x = - round_pos (- x)"
  by (simp add: round53_def round_pos_def)

lemma round_pos_nonneg:
  assumes "0 < a"
  shows "0 \<le> round_pos a"
proof -
  have "of_int 0 \<le> a / ulp_of a" using assms ulp_of_pos [of a] by simp
  then have "0 \<le> round_half_even (a / ulp_of a)" by (rule round_half_even_ge)
  then show ?thesis using ulp_of_pos [of a] by (simp add: round_pos_def)
qed

lemma round_pos_mono:
  assumes "0 < a" "a \<le> b"
  shows "round_pos a \<le> round_pos b"
proof -
  have pb: "0 < b" using assms by simp
  define Ea where "Ea = max (binary_exponent a) (- 1022)"
  define Eb where "Eb = max (binary_exponent b) (- 1022)"
  have E: "Ea \<le> Eb"
    using binary_exponent_mono [OF assms] unfolding Ea_def Eb_def by linarith
  have ua: "ulp_of a = 2 powi (Ea - 52)" and ub: "ulp_of b = 2 powi (Eb - 52)"
    by (simp_all add: ulp_of_def Ea_def Eb_def)
  show ?thesis
  proof (cases "Ea = Eb")
    case True
    then have u: "ulp_of a = ulp_of b" by (simp add: ua ub)
    have "a / ulp_of b \<le> b / ulp_of b"
      using assms(2) ulp_of_pos [of b] by (simp add: divide_right_mono)
    then have "round_half_even (a / ulp_of b) \<le> round_half_even (b / ulp_of b)"
      by (rule round_half_even_mono)
    then have "real_of_int (round_half_even (a / ulp_of b))
               \<le> real_of_int (round_half_even (b / ulp_of b))"
      by simp
    then show ?thesis
      using ulp_of_pos [of b] by (simp add: round_pos_def u mult_right_mono)
  next
    case False
    with E have lt: "Ea < Eb" by linarith
    have Eb: "Eb = binary_exponent b"
      using lt unfolding Ea_def Eb_def by linarith
    have Ea: "binary_exponent a \<le> Ea" unfolding Ea_def by linarith
    \<comment> \<open>the rounded \<open>a\<close> does not exceed the top of its binade\<close>
    have "a < 2 powi (binary_exponent a + 1)"
      using binary_exponent_bounds(2) [OF assms(1)] .
    also have "\<dots> \<le> 2 powi (Ea + 1)"
      using Ea by (intro power_int_increasing) simp_all
    finally have a_top: "a < 2 powi (Ea + 1)" .
    have split_a: "(2::real) powi (Ea + 1) = 2 ^ 53 * 2 powi (Ea - 52)"
    proof -
      have "Ea + 1 = (Ea - 52) + int 53" by simp
      then have "(2::real) powi (Ea + 1) = 2 powi ((Ea - 52) + int 53)" by (rule arg_cong)
      then show ?thesis by (simp only: pow2_split)
    qed
    have "a < 2 ^ 53 * ulp_of a" using a_top by (simp only: split_a ua)
    then have "a / ulp_of a \<le> 2 ^ 53"
      using ulp_of_pos [of a] by (simp add: field_simps)
    then have "a / ulp_of a \<le> of_int (2 ^ 53)" by simp
    then have "round_half_even (a / ulp_of a) \<le> 2 ^ 53" by (rule round_half_even_le)
    then have "real_of_int (round_half_even (a / ulp_of a)) \<le> 2 ^ 53"
      by (metis of_int_le_iff of_int_numeral of_int_power)
    then have "round_pos a \<le> 2 ^ 53 * ulp_of a"
      using ulp_of_pos [of a] by (simp add: round_pos_def mult_right_mono)
    also have "\<dots> = 2 powi (Ea + 1)" by (simp only: split_a ua)
    also have "\<dots> \<le> 2 powi Eb"
      using lt by (intro power_int_increasing) simp_all
    finally have left: "round_pos a \<le> 2 powi Eb" .
    \<comment> \<open>the rounded \<open>b\<close> is not below the bottom of its binade\<close>
    have split_b: "(2::real) powi Eb = 2 ^ 52 * 2 powi (Eb - 52)"
    proof -
      have "Eb = (Eb - 52) + int 52" by simp
      then have "(2::real) powi Eb = 2 powi ((Eb - 52) + int 52)" by (rule arg_cong)
      then show ?thesis by (simp only: pow2_split)
    qed
    have "2 powi Eb \<le> b"
      using binary_exponent_bounds(1) [OF pb] by (simp only: Eb)
    then have "2 ^ 52 * ulp_of b \<le> b" by (simp only: split_b ub)
    then have "2 ^ 52 \<le> b / ulp_of b"
      using ulp_of_pos [of b] by (simp add: field_simps)
    then have "of_int (2 ^ 52) \<le> b / ulp_of b" by simp
    then have "2 ^ 52 \<le> round_half_even (b / ulp_of b)" by (rule round_half_even_ge)
    then have "2 ^ 52 \<le> real_of_int (round_half_even (b / ulp_of b))"
      by (metis of_int_le_iff of_int_numeral of_int_power)
    then have "2 ^ 52 * ulp_of b \<le> round_pos b"
      using ulp_of_pos [of b] by (simp add: round_pos_def mult_right_mono)
    then have "2 powi Eb \<le> round_pos b" by (simp only: split_b ub)
    with left show ?thesis by linarith
  qed
qed

lemma round53_mono:
  assumes "x \<le> y"
  shows "round53 x \<le> round53 y"
proof -
  consider "0 < x" | "x = 0" "y = 0" | "x = 0" "0 < y" | "x < 0" "y < 0" | "x < 0" "y = 0"
    | "x < 0" "0 < y"
    using assms by linarith
  then show ?thesis
  proof cases
    case 1
    then have "0 < y" using assms by simp
    with 1 assms show ?thesis by (simp add: round53_pos round_pos_mono)
  next
    case 2
    then show ?thesis by simp
  next
    case 3
    then show ?thesis using round_pos_nonneg [of y] by (simp add: round53_pos) (simp add: round53_def)
  next
    case 4
    then have "round_pos (- y) \<le> round_pos (- x)" using assms by (intro round_pos_mono) simp_all
    with 4 show ?thesis by (simp add: round53_neg)
  next
    case 5
    then show ?thesis using round_pos_nonneg [of "- x"] by (simp add: round53_neg) (simp add: round53_def)
  next
    case 6
    then show ?thesis
      using round_pos_nonneg [of "- x"] round_pos_nonneg [of y]
      by (simp add: round53_neg round53_pos)
  qed
qed

lemma round_double_mono: "x \<le> y \<Longrightarrow> round_double x \<le> round_double y"
  using round53_mono [of x y] by (simp add: round_double_def min_def max_def)

lemma round53_representable:
  assumes m: "0 < m" "m < 2 ^ 53" and j: "- 1074 \<le> j"
  shows "round53 (of_int m * 2 powi j) = of_int m * 2 powi j"
proof -
  define x where "x = real_of_int m * 2 powi j"
  have pos: "0 < x" using m(1) by (simp add: x_def)
  define E where "E = max (binary_exponent x) (- 1022)"
  define u where "u = (2::real) powi (E - 52)"
  have u: "ulp_of x = u" by (simp add: ulp_of_def E_def u_def)
  have upos: "0 < u" by (simp add: u_def)
  have "real_of_int m < 2 ^ 53"
    using m(2) by (metis of_int_less_iff of_int_numeral of_int_power)
  then have "x < 2 ^ 53 * 2 powi j" by (simp add: x_def)
  also have "\<dots> = 2 powi (j + int 53)" by (simp only: pow2_split)
  finally have "2 powi binary_exponent x < (2::real) powi (j + int 53)"
    using binary_exponent_bounds(1) [OF pos] by linarith
  then have "binary_exponent x < j + int 53" by (rule pow2_less_cancel)
  then have le: "E - 52 \<le> j" using j unfolding E_def by linarith
  define d where "d = nat (j - (E - 52))"
  have "j = (E - 52) + int d" using le by (simp add: d_def)
  then have "(2::real) powi j = 2 powi ((E - 52) + int d)" by (rule arg_cong)
  then have pj: "(2::real) powi j = 2 ^ d * u" by (simp only: pow2_split u_def)
  have xu: "x = of_int (m * 2 ^ d) * u"
    by (simp add: x_def pj)
  then have q: "x / u = of_int (m * 2 ^ d)"
    using upos by simp
  have "round_pos x = of_int (round_half_even (x / u)) * u"
    by (simp only: round_pos_def u)
  also have "\<dots> = of_int (m * 2 ^ d) * u"
    by (simp only: q round_half_even_of_int)
  also have "\<dots> = x" by (simp only: xu)
  finally have "round53 x = x" using pos by (simp add: round53_pos)
  then show ?thesis by (simp only: x_def)
qed

lemma round_double_representable:
  assumes "0 < m" "m < 2 ^ 53" "- 1074 \<le> j" "j \<le> 971"
  shows "round_double (of_int m * 2 powi j) = of_int m * 2 powi j"
proof -
  let ?x = "real_of_int m * 2 powi j"
  have "real_of_int m < 2 ^ 53"
    using assms(2) by (metis of_int_less_iff of_int_numeral of_int_power)
  then have "?x < 2 ^ 53 * 2 powi j" by simp
  also have "\<dots> = 2 powi (j + int 53)" by (simp only: pow2_split)
  also have "\<dots> \<le> 2 powi 1024"
    using assms(4) by (intro power_int_increasing) simp_all
  finally have "?x < 2 ^ 1024" by simp
  moreover have "0 < ?x" using assms(1) by simp
  ultimately show ?thesis
    using round53_representable [OF assms(1,2,3)] by (simp add: round_double_def)
qed

lemma round_double_nat:
  assumes "n < 2 ^ 53"
  shows "round_double (real n) = real n"
proof (cases "n = 0")
  case True
  then show ?thesis by (simp add: round_double_def round53_def)
next
  case False
  have "int n < 2 ^ 53" using assms by (metis of_nat_less_iff of_nat_numeral of_nat_power)
  from round_double_representable [of "int n" 0, OF _ this] False
  show ?thesis by simp
qed

lemma round_double_int:
  assumes "0 \<le> k" "k < 2 ^ 53"
  shows "round_double (of_int k) = of_int k"
proof -
  have "nat k < 2 ^ 53" using assms by (simp add: nat_less_iff)
  from round_double_nat [OF this] assms(1) show ?thesis by simp
qed


lemma round_double_95: "round_double (95 / 100) = 8556839292003942 / 2 ^ 53"
proof -
  have e: "binary_exponent (19 / 20) = - 1"
    by (simp add: binary_exponent_def bit_length.simps)
  show ?thesis
    by (simp add: round_double_def round53_def ulp_of_def e round_half_even_def Let_def)
qed

lemma round_double_99: "round_double (99 / 100) = 8917127262193582 / 2 ^ 53"
proof -
  have e: "binary_exponent (99 / 100) = - 1"
    by (simp add: binary_exponent_def bit_length.simps)
  show ?thesis
    by (simp add: round_double_def round53_def ulp_of_def e round_half_even_def Let_def)
qed

lemma ceiling_rounded_product:
  fixes c r :: real and t D n :: nat
  assumes D: "0 < D" "D \<le> 100" and r: "r = real t / real D" and t: "0 < t"
    and c: "c \<le> r" "r - c \<le> 1 / 2 ^ 54"
    and n: "0 < n" "n < 2 ^ 32" and tD: "t \<le> D"
  shows "\<lceil>round_double (c * real n)\<rceil> = \<lceil>r * real n\<rceil>"
proof -
  define k where "k = \<lceil>r * real n\<rceil>"
  have rpos: "0 < r * real n" using r t D n by simp
  then have k1: "1 \<le> k" unfolding k_def by linarith
  have rn_le: "r * real n \<le> real n"
  proof -
    have "r \<le> 1" using r tD D by simp
    then show ?thesis using mult_right_mono [of r 1 "real n"] by simp
  qed
  have n32: "real n < 2 ^ 32"
    using n(2) by (metis of_nat_less_iff of_nat_numeral of_nat_power)
  have kn: "k \<le> int n"
    unfolding k_def using rn_le by (simp add: ceiling_le_iff)
  have k32: "k < 2 ^ 32"
  proof -
    have "int n < 2 ^ 32" using n(2) by (metis of_nat_less_iff of_nat_numeral of_nat_power)
    then show ?thesis using kn by simp
  qed
  then have k53: "k < 2 ^ 53" by simp
  \<comment> \<open>upper bound\<close>
  have "c * real n \<le> r * real n" using c(1) by (simp add: mult_right_mono)
  also have "\<dots> \<le> of_int k" unfolding k_def by (rule le_of_int_ceiling)
  finally have "round_double (c * real n) \<le> round_double (of_int k)"
    by (rule round_double_mono)
  also have "\<dots> = of_int k" using k1 k53 by (intro round_double_int) simp_all
  finally have up: "\<lceil>round_double (c * real n)\<rceil> \<le> k" by (simp add: ceiling_le_iff)
  \<comment> \<open>lower bound: the exact product is at least \<open>1 / D\<close> above \<open>k - 1\<close>\<close>
  have "of_int (k - 1) < r * real n" unfolding k_def by linarith
  then have "real_of_int (k - 1) * real D < real t * real n"
    using D(1) by (simp add: r field_simps)
  then have "real_of_int ((k - 1) * int D) < real_of_int (int t * int n)" by simp
  then have "(k - 1) * int D < int t * int n" by (simp only: of_int_less_iff)
  then have "(k - 1) * int D + 1 \<le> int t * int n" by simp
  then have "real_of_int ((k - 1) * int D + 1) \<le> real_of_int (int t * int n)"
    by (simp only: of_int_le_iff)
  then have "real_of_int (k - 1) * real D + 1 \<le> real t * real n" by simp
  then have "(real_of_int (k - 1) * real D + 1) / real D \<le> (real t * real n) / real D"
    by (rule divide_right_mono) simp
  then have gap: "real_of_int (k - 1) + 1 / real D \<le> r * real n"
    using D(1) by (simp add: r add_divide_distrib)
  have "1 / 100 \<le> 1 / real D" using D by (simp add: field_simps)
  with gap have gap100: "real_of_int (k - 1) + 1 / 100 \<le> r * real n" by linarith
  have "(r - c) * real n \<le> (1 / 2 ^ 54) * 2 ^ 32"
    using c n32 by (intro mult_mono) simp_all
  then have loss: "r * real n - c * real n \<le> 1 / 2 ^ 22" by (simp add: algebra_simps)
  have low: "real_of_int (k - 1) + 1 / 128 \<le> c * real n"
    using gap100 loss by simp
  have rep: "round_double (of_int (128 * (k - 1) + 1) * 2 powi (- 7))
             = of_int (128 * (k - 1) + 1) * 2 powi (- 7)"
    using k1 k32 by (intro round_double_representable) simp_all
  have val: "real_of_int (128 * (k - 1) + 1) * 2 powi (- 7) = real_of_int (k - 1) + 1 / 128"
    by (simp add: power_int_minus field_simps)
  have "real_of_int (k - 1) + 1 / 128 = round_double (real_of_int (k - 1) + 1 / 128)"
    using rep unfolding val by simp
  also have "\<dots> \<le> round_double (c * real n)"
    using low by (rule round_double_mono)
  finally have "real_of_int (k - 1) < round_double (c * real n)" by linarith
  then have "k - 1 < \<lceil>round_double (c * real n)\<rceil>" by (simp add: less_ceiling_iff)
  with up show ?thesis unfolding k_def by linarith
qed


lemma round_double_zero: "round_double 0 = 0"
  by (simp add: round_double_def round53_def)

lemma round_double_one: "round_double 1 = 1"
  using round_double_nat [of 1] by simp

lemma round_double_7: "round_double (7 / 100) = 5044031582654956 / 2 ^ 56"
proof -
  have e: "binary_exponent (7 / 100) = - 4"
    by (simp add: binary_exponent_def bit_length.simps)
  show ?thesis
    by (simp add: round_double_def round53_def ulp_of_def e round_half_even_def Let_def)
qed

lemma round_double_7_times_100:
  "round_double (5044031582654956 / 2 ^ 56 * 100) = 7881299347898369 / 2 ^ 50"
proof -
  define x :: real where "x = 5044031582654956 / 2 ^ 56 * 100"
  have pos: "0 < x" by (simp add: x_def)
  have e: "binary_exponent x = 2"
    by (rule binary_exponent_unique) (simp_all add: x_def)
  have u: "ulp_of x = 1 / 2 ^ 50"
    by (simp add: ulp_of_def e power_int_minus)
  have q: "x / ulp_of x = 7881299347898368 + 3 / 4"
    unfolding u by (simp add: x_def)
  have h: "round_half_even (x / ulp_of x) = 7881299347898369"
    unfolding q by (simp add: round_half_even_def Let_def)
  have "round_pos x = 7881299347898369 / 2 ^ 50"
    unfolding round_pos_def by (subst h, subst u) simp
  then have "round53 x = 7881299347898369 / 2 ^ 50"
    by (simp only: round53_pos [OF pos])
  then have "round_double x = 7881299347898369 / 2 ^ 50"
    by (simp add: round_double_def)
  then show ?thesis unfolding x_def .
qed

section \<open>Helper lemmas: the percentile index\<close>

lemma rounded_product_le:
  assumes "p \<le> 100" "n < 2 ^ 53"
  shows "round_double (round_double (p / 100) * real n) \<le> real n"
proof -
  have "round_double (p / 100) \<le> round_double 1"
    using assms(1) by (intro round_double_mono) simp
  then have "round_double (p / 100) \<le> 1" by (simp add: round_double_one)
  then have "round_double (p / 100) * real n \<le> 1 * real n"
    by (intro mult_right_mono) simp_all
  then have "round_double (round_double (p / 100) * real n) \<le> round_double (real n)"
    by (intro round_double_mono) simp
  then show ?thesis by (simp add: round_double_nat [OF assms(2)])
qed

lemma rounded_index:
  assumes "K \<le> int n" "n < 2 ^ 53"
  shows "max 0 (round_double (of_int K - 1)) = real (nat (max 0 (K - 1)))"
proof (cases "1 \<le> K")
  case True
  have "int n < 2 ^ 53"
    using assms(2) by (metis of_nat_less_iff of_nat_numeral of_nat_power)
  then have "K - 1 < 2 ^ 53" using assms(1) by simp
  then have "round_double (of_int (K - 1)) = of_int (K - 1)"
    using True by (intro round_double_int) simp_all
  then have "round_double (of_int K - 1) = of_int (K - 1)" by simp
  then show ?thesis using True by simp
next
  case False
  then have "of_int K - 1 \<le> (0::real)" by simp
  then have "round_double (of_int K - 1) \<le> round_double 0" by (rule round_double_mono)
  then have "max 0 (round_double (of_int K - 1)) = 0" by (simp add: round_double_zero)
  moreover have "nat (max 0 (K - 1)) = 0" using False by simp
  ultimately show ?thesis by simp
qed

lemma percentile_index_nat:
  assumes "p \<le> 100" "n < 2 ^ 53"
  shows "percentile_index n p
         = real (nat (max 0 (\<lceil>round_double (round_double (p / 100) * real n)\<rceil> - 1)))"
proof -
  have "\<lceil>round_double (round_double (p / 100) * real n)\<rceil> \<le> int n"
    using rounded_product_le [OF assms] by (simp add: ceiling_le_iff)
  from rounded_index [OF this assms(2)] show ?thesis
    by (simp add: percentile_index_def)
qed

lemma percentile_index_bound:
  assumes "p \<le> 100" "0 < n" "n < 2 ^ 53"
  shows "nat (max 0 (\<lceil>round_double (round_double (p / 100) * real n)\<rceil> - 1)) < n"
proof -
  have "\<lceil>round_double (round_double (p / 100) * real n)\<rceil> \<le> int n"
    using rounded_product_le [OF assms(1,3)] by (simp add: ceiling_le_iff)
  then show ?thesis using assms(2) by linarith
qed

lemma percentile_index_mono:
  assumes "p \<le> q"
  shows "nat (max 0 (\<lceil>round_double (round_double (p / 100) * real n)\<rceil> - 1))
         \<le> nat (max 0 (\<lceil>round_double (round_double (q / 100) * real n)\<rceil> - 1))"
proof -
  have "round_double (p / 100) \<le> round_double (q / 100)"
    using assms by (intro round_double_mono) simp
  then have "round_double (p / 100) * real n \<le> round_double (q / 100) * real n"
    by (intro mult_right_mono) simp_all
  then have "round_double (round_double (p / 100) * real n)
             \<le> round_double (round_double (q / 100) * real n)"
    by (rule round_double_mono)
  then have "\<lceil>round_double (round_double (p / 100) * real n)\<rceil>
             \<le> \<lceil>round_double (round_double (q / 100) * real n)\<rceil>"
    by (rule ceiling_mono)
  then show ?thesis by linarith
qed

lemma array_length: "n < 2 ^ 32 \<Longrightarrow> n < (2::nat) ^ 53"
proof -
  assume "n < 2 ^ 32"
  moreover have "(2::nat) ^ 32 \<le> 2 ^ 53" by (rule power_increasing) simp_all
  ultimately show ?thesis by linarith
qed

lemma percentile_empty: "percentile [] p = Some 0"
  by (simp add: percentile_def)

lemma percentile_at_index:
  assumes "srt \<noteq> []" "p \<le> 100" "length srt < 2 ^ 32"
  shows "percentile srt p
           = Some (srt ! nat (max 0 (\<lceil>round_double (round_double (p / 100)
                                            * real (length srt))\<rceil> - 1)))"
proof -
  define k where
    "k = nat (max 0 (\<lceil>round_double (round_double (p / 100) * real (length srt))\<rceil> - 1))"
  have n: "length srt < 2 ^ 53" using assms(3) by (rule array_length)
  have i: "percentile_index (length srt) p = real k"
    unfolding k_def by (rule percentile_index_nat [OF assms(2) n])
  have "0 < length srt" using assms(1) by simp
  from percentile_index_bound [OF assms(2) this n] have b: "k < length srt"
    unfolding k_def .
  have f: "\<lfloor>real k\<rfloor> = int k" by simp
  have "percentile srt p = Some (srt ! k)"
    unfolding percentile_def Let_def i f using assms(1) b by simp
  then show ?thesis unfolding k_def .
qed

lemma percentile_member:
  assumes "srt \<noteq> []" "p \<le> 100" "length srt < 2 ^ 32"
  shows "\<exists>v \<in> set srt. percentile srt p = Some v"
proof -
  have n: "length srt < 2 ^ 53" using assms(3) by (rule array_length)
  have "0 < length srt" using assms(1) by simp
  from percentile_index_bound [OF assms(2) this n]
  have "srt ! nat (max 0 (\<lceil>round_double (round_double (p / 100)
                               * real (length srt))\<rceil> - 1)) \<in> set srt"
    by (intro nth_mem)
  then show ?thesis using percentile_at_index [OF assms] by simp
qed

lemma percentile_mono:
  assumes "srt \<noteq> []" "p \<le> q" "q \<le> 100" "length srt < 2 ^ 32" "sorted srt"
  shows "\<exists>a b. percentile srt p = Some a \<and> percentile srt q = Some b \<and> a \<le> b"
proof -
  have n: "length srt < 2 ^ 53" using assms(4) by (rule array_length)
  have l: "0 < length srt" using assms(1) by simp
  have p: "p \<le> 100" using assms(2,3) by simp
  have "srt ! nat (max 0 (\<lceil>round_double (round_double (p / 100)
                               * real (length srt))\<rceil> - 1))
        \<le> srt ! nat (max 0 (\<lceil>round_double (round_double (q / 100)
                               * real (length srt))\<rceil> - 1))"
    using percentile_index_mono [OF assms(2), of "length srt"]
          percentile_index_bound [OF assms(3) l n] assms(5)
    by (intro sorted_nth_mono)
  then show ?thesis
    using percentile_at_index [OF assms(1) p assms(4)]
          percentile_at_index [OF assms(1,3,4)] by simp
qed

lemma ceiling_95:
  assumes "0 < n" "n < 2 ^ 32"
  shows "\<lceil>round_double (round_double (95 / 100) * real n)\<rceil> = \<lceil>(95 / 100) * real n\<rceil>"
proof -
  have r: "(95 / 100 :: real) = real 19 / real 20" by simp
  have c: "round_double (95 / 100) \<le> 95 / 100"
    "95 / 100 - round_double (95 / 100) \<le> 1 / 2 ^ 54"
    unfolding round_double_95 by simp_all
  show ?thesis
    by (rule ceiling_rounded_product [OF _ _ r _ c assms]) simp_all
qed

lemma ceiling_99:
  assumes "0 < n" "n < 2 ^ 32"
  shows "\<lceil>round_double (round_double (99 / 100) * real n)\<rceil> = \<lceil>(99 / 100) * real n\<rceil>"
proof -
  have r: "(99 / 100 :: real) = real 99 / real 100" by simp
  have c: "round_double (99 / 100) \<le> 99 / 100"
    "99 / 100 - round_double (99 / 100) \<le> 1 / 2 ^ 54"
    unfolding round_double_99 by simp_all
  show ?thesis
    by (rule ceiling_rounded_product [OF _ _ r _ c assms]) simp_all
qed

lemma percentile_95_exact:
  assumes "length ds < 2 ^ 32"
  shows "percentile (sort ds) 95 = Some (nearest_rank_spec ds 95)"
proof (cases "ds = []")
  case True
  then show ?thesis by (simp add: percentile_def nearest_rank_spec_def)
next
  case False
  then have ne: "sort ds \<noteq> []" by (metis length_sort length_0_conv)
  have l: "length (sort ds) < 2 ^ 32" using assms by simp
  have "0 < length ds" using False by simp
  from ceiling_95 [OF this assms] percentile_at_index [OF ne _ l, of 95] False
  show ?thesis by (simp add: nearest_rank_spec_def)
qed

lemma percentile_99_exact:
  assumes "length ds < 2 ^ 32"
  shows "percentile (sort ds) 99 = Some (nearest_rank_spec ds 99)"
proof (cases "ds = []")
  case True
  then show ?thesis by (simp add: percentile_def nearest_rank_spec_def)
next
  case False
  then have ne: "sort ds \<noteq> []" by (metis length_sort length_0_conv)
  have l: "length (sort ds) < 2 ^ 32" using assms by simp
  have "0 < length ds" using False by simp
  from ceiling_99 [OF this assms] percentile_at_index [OF ne _ l, of 99] False
  show ?thesis by (simp add: nearest_rank_spec_def)
qed

lemma summary_percentiles:
  assumes "mc_reachable s"
  shows "\<exists>a b. p95DurationMs s = Some a \<and> p99DurationMs s = Some b \<and> a \<le> b
     \<and> a = nearest_rank_spec (map durationMs (requestMetrics s)) 95
     \<and> b = nearest_rank_spec (map durationMs (requestMetrics s)) 99
     \<and> (requestMetrics s = [] \<longrightarrow> a = 0 \<and> b = 0)
     \<and> (requestMetrics s \<noteq> [] \<longrightarrow>
          a \<in> durationMs ` set (requestMetrics s) \<and> b \<in> durationMs ` set (requestMetrics s))"
proof -
  let ?ds = "map durationMs (requestMetrics s)"
  have "length (requestMetrics s) \<le> 10000"
    using mc_reachable_bound [OF assms] by (simp add: maxMetricsRetained_def)
  moreover have "(10000::nat) < 2 ^ 32" by simp
  ultimately have len: "length ?ds < 2 ^ 32" by simp
  have len': "length (sort ?ds) < 2 ^ 32" using len by simp
  have e95: "percentile (sort ?ds) 95 = Some (nearest_rank_spec ?ds 95)"
    using len by (rule percentile_95_exact)
  have e99: "percentile (sort ?ds) 99 = Some (nearest_rank_spec ?ds 99)"
    using len by (rule percentile_99_exact)
  have v: "p95DurationMs s = Some (nearest_rank_spec ?ds 95)"
    "p99DurationMs s = Some (nearest_rank_spec ?ds 99)"
    using e95 e99 by (simp_all add: p95DurationMs_def p99DurationMs_def durations_def)
  show ?thesis
  proof (cases "requestMetrics s = []")
    case True
    then show ?thesis using v by (simp add: nearest_rank_spec_def)
  next
    case False
    then have ne: "sort ?ds \<noteq> []" by (metis length_sort length_0_conv length_map)
    have r: "(95::real) \<le> 99" "(99::real) \<le> 100" "(95::real) \<le> 100" by simp_all
    from percentile_mono [OF ne r(1,2) len'] e95 e99
    have le: "nearest_rank_spec ?ds 95 \<le> nearest_rank_spec ?ds 99" by simp
    from percentile_member [OF ne r(3) len'] e95
    have ma: "nearest_rank_spec ?ds 95 \<in> set ?ds" by (elim bexE) simp
    from percentile_member [OF ne r(2) len'] e99
    have mb: "nearest_rank_spec ?ds 99 \<in> set ?ds" by (elim bexE) simp
    have m: "nearest_rank_spec ?ds 95 \<in> durationMs ` set (requestMetrics s)"
      "nearest_rank_spec ?ds 99 \<in> durationMs ` set (requestMetrics s)"
      using ma mb by simp_all
    show ?thesis
      by (rule exI [of _ "nearest_rank_spec ?ds 95"], rule exI [of _ "nearest_rank_spec ?ds 99"])
         (simp add: v le m False)
  qed
qed


lemma one_to_hundred_sorted: "sort one_to_hundred = one_to_hundred"
proof -
  have "sorted (map real [1..<101])"
    unfolding sorted_map by (rule sorted_wrt_mono_rel [OF _ sorted_upt]) simp
  then show ?thesis unfolding one_to_hundred_def by (rule sorted_sort_id)
qed

lemma one_to_hundred_nth: "i < 100 \<Longrightarrow> one_to_hundred ! i = real (Suc i)"
  by (simp add: one_to_hundred_def)

lemma percentile_index_7: "percentile_index 100 7 = 7"
proof -
  have c: "\<lceil>(7881299347898369 / 2 ^ 50 :: real)\<rceil> = 8"
    by (simp add: ceiling_eq_iff)
  have "real 100 = 100" by simp
  then have x: "round_double (round_double (7 / 100) * real 100) = 7881299347898369 / 2 ^ 50"
    by (simp only: round_double_7 round_double_7_times_100)
  have i: "round_double (real_of_int 8 - 1) = 7"
    using round_double_nat [of 7] by simp
  show ?thesis
    unfolding percentile_index_def Let_def x c i by simp
qed


section \<open>Nearest-rank percentile\<close>

text \<open>
  C4, as the specification states it, fails: on the hundred durations
  \<open>1, 2, \<dots>, 100\<close> and \<open>p = 7\<close> the nearest-rank index \<open>ceil(7/100 \<times> 100) - 1\<close> is
  \<open>6\<close> and the value there is \<open>7\<close>, but in doubles \<open>(7 / 100) * 100\<close> is
  \<open>7.000000000000001\<close>, so \<open>percentile\<close> reads index \<open>7\<close> and returns \<open>8\<close>.
\<close>

theorem percentile_rounding_counterexample:
  "percentile (sort one_to_hundred) 7 = Some 8 \<and> nearest_rank_spec one_to_hundred 7 = 7"
proof -
  have l: "length one_to_hundred = 100" by (simp add: one_to_hundred_def)
  have a: "percentile one_to_hundred 7 = Some 8"
    by (simp add: percentile_def l percentile_index_7 one_to_hundred_nth)
  have "one_to_hundred \<noteq> []" using l by auto
  then have b: "nearest_rank_spec one_to_hundred 7 = 7"
    by (simp add: nearest_rank_spec_def one_to_hundred_sorted l one_to_hundred_nth)
  show ?thesis using a b by (simp add: one_to_hundred_sorted)
qed

text \<open>
  C4, amended. Let \<open>fl\<close> round a real number to the nearest double. For a percentile
  \<open>p \<le> 100\<close> and an array of fewer than \<open>2 ^ 32\<close> numbers (every JavaScript array
  is): on the empty array \<open>percentile\<close> returns \<open>0\<close>; on a non-empty array it
  returns the element at index \<open>max(0, ceil(fl(fl(p/100) \<times> n)) - 1)\<close>, which is one
  of the supplied values, and on an ascending array the result at \<open>p\<close> is at most the
  result at \<open>q\<close> when \<open>p \<le> q \<le> 100\<close>. At \<open>p = 95\<close> and \<open>p = 99\<close>, the two
  percentiles \<open>getSummary\<close> asks for, the rounding does not show: on the ascending
  sort of the durations the result is the nearest-rank value of the specification. So
  in every reachable state of the collector the 95th and 99th percentiles of the
  summary are defined, are the nearest-rank values of the retained durations, in this
  order, \<open>0\<close> when no request is retained and otherwise durations of retained
  requests.
\<close>

theorem percentile_nearest_rank:
  assumes "p \<le> q" and "q \<le> 100" and "length srt < 2 ^ 32" and "length ds < 2 ^ 32"
  shows "percentile [] p = Some 0
       \<and> (srt \<noteq> [] \<longrightarrow>
            percentile srt p
              = Some (srt ! nat (max 0 (\<lceil>round_double (round_double (p / 100)
                                               * real (length srt))\<rceil> - 1)))
          \<and> (\<exists>v \<in> set srt. percentile srt p = Some v)
          \<and> (sorted srt \<longrightarrow>
               (\<exists>a b. percentile srt p = Some a \<and> percentile srt q = Some b \<and> a \<le> b)))
       \<and> percentile (sort ds) 95 = Some (nearest_rank_spec ds 95)
       \<and> percentile (sort ds) 99 = Some (nearest_rank_spec ds 99)
       \<and> (mc_reachable s \<longrightarrow>
           (\<exists>a b. p95DurationMs s = Some a \<and> p99DurationMs s = Some b \<and> a \<le> b
             \<and> a = nearest_rank_spec (map durationMs (requestMetrics s)) 95
             \<and> b = nearest_rank_spec (map durationMs (requestMetrics s)) 99
             \<and> (requestMetrics s = [] \<longrightarrow> a = 0 \<and> b = 0)
             \<and> (requestMetrics s \<noteq> [] \<longrightarrow>
                  a \<in> durationMs ` set (requestMetrics s)
                  \<and> b \<in> durationMs ` set (requestMetrics s))))"
proof -
  have p: "p \<le> 100" using assms by simp
  show ?thesis
    by (intro conjI impI percentile_empty percentile_at_index percentile_member
          percentile_mono percentile_95_exact percentile_99_exact summary_percentiles
          p assms)
qed


theorem percentile_nearest_rank_witness:
  "(95::real) \<le> 99 \<and> (99::real) \<le> 100 \<and> [30, 10, 20, 40] \<noteq> ([]::real list)
   \<and> length (sort [30, 10, 20, 40 :: real]) < 2 ^ 32
   \<and> sorted (sort [30, 10, 20, 40 :: real])
   \<and> mc_reachable (recordRequest (newMetricsCollector 0) example_metric)
   \<and> percentile [] 95 = Some 0
   \<and> percentile (sort [30, 10, 20, 40]) 95 = Some 40
   \<and> percentile (sort [30, 10, 20, 40]) 99 = Some 40
   \<and> (\<exists>v \<in> set (sort [30, 10, 20, 40]). percentile (sort [30, 10, 20, 40]) 95 = Some v)
   \<and> (\<exists>a b. percentile (sort [30, 10, 20, 40]) 95 = Some a
            \<and> percentile (sort [30, 10, 20, 40]) 99 = Some b \<and> a \<le> b)
   \<and> p95DurationMs (recordRequest (newMetricsCollector 0) example_metric) = Some 12"
proof -
  let ?S = "recordRequest (newMetricsCollector 0) example_metric"
  let ?L = "[30, 10, 20, 40] :: real list"
  have m: "requestMetrics ?S = [example_metric]"
    by (simp add: recordRequest_def newMetricsCollector_def evict_metrics_def
          maxMetricsRetained_def)
  have r: "mc_reachable ?S" by (intro mc_recordRequest mc_new)
  have h: "(95::real) \<le> 99" "(99::real) \<le> 100" and ne: "?L \<noteq> []" "sort ?L \<noteq> []"
    and l: "length (sort ?L) < 2 ^ 32" "length ?L < 2 ^ 32" and s: "sorted (sort ?L)"
    by simp_all
  note a = percentile_nearest_rank [OF h(1,2) l, of ?S]
  note a2 = a [THEN conjunct2]
  note a3 = a2 [THEN conjunct2]
  note a4 = a3 [THEN conjunct2]
  note a5 = a4 [THEN conjunct2]
  note b = a2 [THEN conjunct1, THEN mp, OF ne(2)]
  note b3 = b [THEN conjunct2, THEN conjunct2, THEN mp, OF s]
  have 0: "percentile [] 95 = Some 0" by (rule a [THEN conjunct1])
  have "percentile (sort ?L) 95 = Some (nearest_rank_spec ?L 95)"
    by (rule a3 [THEN conjunct1])
  then have 1: "percentile (sort ?L) 95 = Some 40" by (simp add: nearest_rank_spec_def)
  have "percentile (sort ?L) 99 = Some (nearest_rank_spec ?L 99)"
    by (rule a4 [THEN conjunct1])
  then have 2: "percentile (sort ?L) 99 = Some 40" by (simp add: nearest_rank_spec_def)
  have 3: "\<exists>v \<in> set (sort ?L). percentile (sort ?L) 95 = Some v"
    by (rule b [THEN conjunct2, THEN conjunct1])
  have 4: "\<exists>a b. percentile (sort ?L) 95 = Some a
            \<and> percentile (sort ?L) 99 = Some b \<and> a \<le> b"
    by (rule b3)
  from a5 [THEN mp, OF r] obtain x y where x: "p95DurationMs ?S = Some x"
    "requestMetrics ?S \<noteq> [] \<longrightarrow>
       x \<in> durationMs ` set (requestMetrics ?S) \<and> y \<in> durationMs ` set (requestMetrics ?S)"
    by (elim conjE exE)
  from x(2) have "x = 12" unfolding m by (simp add: example_metric_def)
  with x(1) have 5: "p95DurationMs ?S = Some 12" by simp
  show ?thesis
    by (intro conjI h ne(1) l(1) s r 0 1 2 3 4 5)
qed

section \<open>Halving eviction\<close>

text \<open>
  C5. In every reachable state of the collector the request buffer holds at most
  \<open>maxMetricsRetained\<close> entries, and so it does after \<open>recordRequest\<close>: below the
  cap the metric is appended; at the cap the append exceeds it and the buffer becomes
  the newest \<open>maxMetricsRetained div 2\<close> entries of the appended buffer, the older
  ones discarded. The same holds of the completed store, \<open>maxCompletedSpans\<close> and
  \<open>endSpan\<close> on an active span.
\<close>

theorem halving_eviction:
  assumes "mc_reachable s" and "ts_reachable t" and "map_of (activeSpans t) sid = Some sp"
  shows "length (requestMetrics s) \<le> maxMetricsRetained
       \<and> length (requestMetrics (recordRequest s m)) \<le> maxMetricsRetained
       \<and> requestMetrics (recordRequest s m) =
           (if length (requestMetrics s) < maxMetricsRetained then requestMetrics s @ [m]
            else drop (maxMetricsRetained div 2 + 1) (requestMetrics s @ [m]))
       \<and> (length (requestMetrics s) = maxMetricsRetained \<longrightarrow>
            length (requestMetrics (recordRequest s m)) = maxMetricsRetained div 2)
       \<and> length (completedSpans t) \<le> maxCompletedSpans
       \<and> length (completedSpans (fst (endSpan cfg t now sid st tgs))) \<le> maxCompletedSpans
       \<and> completedSpans (fst (endSpan cfg t now sid st tgs)) =
           (if length (completedSpans t) < maxCompletedSpans
            then completedSpans t @ [close_span sp now st tgs]
            else drop (maxCompletedSpans div 2 + 1) (completedSpans t @ [close_span sp now st tgs]))
       \<and> (length (completedSpans t) = maxCompletedSpans \<longrightarrow>
            length (completedSpans (fst (endSpan cfg t now sid st tgs))) = maxCompletedSpans div 2)"
proof -
  have m1: "length (requestMetrics s) \<le> maxMetricsRetained"
    using assms(1) by (rule mc_reachable_bound)
  have m2: "length (requestMetrics (recordRequest s m)) \<le> maxMetricsRetained"
    by (simp add: recordRequest_def length_evict_metrics)
  have m3: "requestMetrics (recordRequest s m) =
           (if length (requestMetrics s) < maxMetricsRetained then requestMetrics s @ [m]
            else drop (maxMetricsRetained div 2 + 1) (requestMetrics s @ [m]))"
    using evict_metrics_snoc [OF m1] by (simp add: recordRequest_def)
  have m4: "length (requestMetrics (recordRequest s m)) = maxMetricsRetained div 2"
    if "length (requestMetrics s) = maxMetricsRetained"
    using that m3 by (simp add: maxMetricsRetained_def)
  have t1: "length (completedSpans t) \<le> maxCompletedSpans"
    using assms(2) by (rule ts_reachable_bound)
  have e: "completedSpans (fst (endSpan cfg t now sid st tgs))
           = evict_completed (completedSpans t @ [close_span sp now st tgs])"
    using assms(3) by (simp add: endSpan_def Let_def)
  have t2: "length (completedSpans (fst (endSpan cfg t now sid st tgs))) \<le> maxCompletedSpans"
    using e by (simp add: length_evict_completed)
  have t3: "completedSpans (fst (endSpan cfg t now sid st tgs)) =
           (if length (completedSpans t) < maxCompletedSpans
            then completedSpans t @ [close_span sp now st tgs]
            else drop (maxCompletedSpans div 2 + 1) (completedSpans t @ [close_span sp now st tgs]))"
    using evict_completed_snoc_cases [OF t1] e by simp
  have t4: "length (completedSpans (fst (endSpan cfg t now sid st tgs))) = maxCompletedSpans div 2"
    if "length (completedSpans t) = maxCompletedSpans"
    using that t3 by (simp add: maxCompletedSpans_def)
  show ?thesis
    using m1 m2 m3 m4 t1 t2 t3 t4 by blast
qed

theorem halving_eviction_witness:
  "length (requestMetrics
      (((\<lambda>s. recordRequest s example_metric) ^^ 10000) (newMetricsCollector 0))) = 10000
   \<and> length (requestMetrics
      (recordRequest (((\<lambda>s. recordRequest s example_metric) ^^ 10000) (newMetricsCollector 0))
         example_metric)) = 5000
   \<and> length (completedSpans
      (fst (startSpan example_config (sequential_spans example_config 5000)
              ''b'' 30 ''t1'' ''p0'' ''op'' None))) = 5000
   \<and> length (completedSpans
      (fst (endSpan example_config
              (fst (startSpan example_config (sequential_spans example_config 5000)
                      ''b'' 30 ''t1'' ''p0'' ''op'' None))
              40 ''b'' ok None))) = 2500"
proof -
  let ?m = "example_metric"
  let ?cfg = "example_config"
  let ?s = "((\<lambda>s. recordRequest s ?m) ^^ 10000) (newMetricsCollector 0)"
  let ?r = "sequential_spans ?cfg 5000"
  let ?t = "fst (startSpan ?cfg ?r ''b'' 30 ''t1'' ''p0'' ''op'' None)"
  let ?sp = "child_span ?cfg ''t1'' ''p0'' ''b'' 30 ''op'' None"
  have "10000 \<le> maxMetricsRetained" by (simp add: maxMetricsRetained_def)
  from repeated_recordRequest [OF this, of ?m 0]
  have ms: "mc_reachable ?s" and ml: "length (requestMetrics ?s) = maxMetricsRetained"
    by (simp_all only: length_replicate maxMetricsRetained_def)
  have "5000 \<le> maxCompletedSpans" by (simp add: maxCompletedSpans_def)
  from sequential_spans_run [OF this, of ?cfg]
  have run: "ts_reachable ?r" "enabled ?r" "activeSpans ?r = []"
    "length (completedSpans ?r) = maxCompletedSpans"
    "completed_ids ?r \<subseteq> (\<lambda>i. replicate i CHR ''a'') ` {1..5000}"
    by (simp_all only: maxCompletedSpans_def)
  have fresh: "fresh_span_id ?r ''b''"
    using run(3,5) letter_b_not_run_id [of 5000]
    by (auto simp only: fresh_span_id_def active_ids_def list.set image_empty)
  have tr: "ts_reachable ?t"
    using run(1) step_startSpan [OF fresh] by (rule reach_step)
  have ta: "map_of (activeSpans ?t) ''b'' = Some ?sp"
    using run(2) by (rule startSpan_enabled)
  have tc: "completedSpans ?t = completedSpans ?r"
    using run(2) by (simp add: startSpan_def)
  have tl: "length (completedSpans ?t) = maxCompletedSpans"
    using tc run(4) by (simp only:)
  from halving_eviction [OF ms tr ta, of ?m ?cfg 40 ok None] ml tl
  have "length (requestMetrics (recordRequest ?s ?m)) = maxMetricsRetained div 2"
    and "length (completedSpans (fst (endSpan ?cfg ?t 40 ''b'' ok None))) = maxCompletedSpans div 2"
    by blast+
  then show ?thesis
    using ml tl by (simp only: maxMetricsRetained_def maxCompletedSpans_def) simp
qed

section \<open>Helper lemmas: what each operation does to the two stores\<close>

lemma endSpan_moves:
  assumes "map_of (activeSpans s) sid = Some sp"
    and "length (completedSpans s) \<le> maxCompletedSpans"
  shows "activeSpans (fst (endSpan cfg s now sid st tgs)) = AList.delete sid (activeSpans s)"
    and "completedSpans (fst (endSpan cfg s now sid st tgs))
         = (if length (completedSpans s) < maxCompletedSpans
            then completedSpans s @ [close_span sp now st tgs]
            else drop (maxCompletedSpans div 2 + 1)
                   (completedSpans s @ [close_span sp now st tgs]))"
  using assms(1) evict_completed_snoc_cases [OF assms(2), of "close_span sp now st tgs"]
  by (simp_all add: endSpan_def Let_def)

lemma endSpan_others:
  assumes "map_of (activeSpans s) sid = Some sp" and "sid' \<noteq> sid"
  shows "map_of (activeSpans (fst (endSpan cfg s now sid st tgs))) sid'
         = map_of (activeSpans s) sid'"
  using assms by (simp add: endSpan_def Let_def AList.delete_conv')

lemma endSpan_active_ids:
  assumes "map_of (activeSpans s) sid = Some sp"
  shows "active_ids (fst (endSpan cfg s now sid st tgs)) = active_ids s - {sid}"
  using assms by (simp add: endSpan_def Let_def active_ids_def keys_alist_delete)

lemma endSpan_completed_id:
  assumes "map_of (activeSpans s) sid = Some sp" and "keyed s"
  shows "sid \<in> completed_ids (fst (endSpan cfg s now sid st tgs))"
proof -
  from assms(1) have "(sid, sp) \<in> set (activeSpans s)" by (rule map_of_SomeD)
  with assms(2) have k: "spanId sp = sid" by (auto simp: keyed_def)
  obtain k where "completedSpans (fst (endSpan cfg s now sid st tgs))
                  = drop k (completedSpans s) @ [close_span sp now st tgs]"
    using endSpan_active(2) [OF assms(1)] by blast
  then have "close_span sp now st tgs \<in> set (completedSpans (fst (endSpan cfg s now sid st tgs)))"
    by simp
  then have "spanId (close_span sp now st tgs)
             \<in> completed_ids (fst (endSpan cfg s now sid st tgs))"
    unfolding completed_ids_def by (rule imageI)
  then show ?thesis by (simp add: spanId_close_span k)
qed

lemma completed_untouched:
  shows "completedSpans (fst (startTrace cfg s tid sid now rnd opName tgs)) = completedSpans s"
    and "completedSpans (fst (startSpan cfg s sid now tid parent opName tgs)) = completedSpans s"
    and "completedSpans (addSpanLog s now sid msg dat) = completedSpans s"
    and "completedSpans (addSpanTags s sid tgs') = completedSpans s"
  by (simp_all add: startTrace_def startSpan_def addSpanLog_def addSpanTags_def
        split: option.splits)

lemma endSpan_inactive:
  "map_of (activeSpans s) sid = None \<Longrightarrow> fst (endSpan cfg s now sid st tgs) = s"
  by (simp add: endSpan_def)

lemma completed_step_exact:
  assumes "ts_step s s'" and "length (completedSpans s) \<le> maxCompletedSpans"
  shows "completedSpans s' = completedSpans s
       \<or> (\<exists>sid sp now st tgs. map_of (activeSpans s) sid = Some sp
            \<and> completedSpans s'
                = (if length (completedSpans s) < maxCompletedSpans
                   then completedSpans s @ [close_span sp now st tgs]
                   else drop (maxCompletedSpans div 2 + 1)
                          (completedSpans s @ [close_span sp now st tgs])))"
  using assms(1)
proof (cases rule: ts_step.cases)
  case (step_startTrace sid cfg tid now rnd opName tgs)
  then show ?thesis by (simp add: completed_untouched)
next
  case (step_startSpan sid cfg now tid parent opName tgs)
  then show ?thesis by (simp add: completed_untouched)
next
  case (step_endSpan cfg now sid st tgs)
  show ?thesis
  proof (cases "map_of (activeSpans s) sid")
    case None
    with step_endSpan show ?thesis by (simp add: endSpan_inactive)
  next
    case (Some sp)
    from endSpan_moves(2) [OF Some assms(2), of cfg now st tgs] step_endSpan
    have "completedSpans s'
                = (if length (completedSpans s) < maxCompletedSpans
                   then completedSpans s @ [close_span sp now st tgs]
                   else drop (maxCompletedSpans div 2 + 1)
                          (completedSpans s @ [close_span sp now st tgs]))"
      by simp
    with Some show ?thesis by blast
  qed
next
  case (step_addSpanLog now sid msg dat)
  then show ?thesis by (simp add: completed_untouched)
next
  case (step_addSpanTags sid tgs')
  then show ?thesis by (simp add: completed_untouched)
qed

section \<open>A span id lives in one store\<close>

text \<open>
  C6. In every reachable state of the tracer (span ids drawn by the starts being
  fresh) no span id is both in the active set and in the completed store. \<open>endSpan\<close>
  on an active id, in one step, deletes that id from the active set, leaving every
  other active span as it was, and puts the closed span at the end of the completed
  store; the completed store is then the old one with the closed span appended, or,
  when the old one was at its cap, the last half of that. No other operation touches
  the completed store: \<open>startTrace\<close>, \<open>startSpan\<close>, \<open>addSpanLog\<close>,
  \<open>addSpanTags\<close> and \<open>endSpan\<close> on an id that is not active leave it as it is.
  So every step either keeps the completed store or appends one closed span and, at
  the cap, drops the oldest entries: a completed span is dropped by eviction or kept
  as it is.
\<close>

theorem span_in_one_store:
  assumes "ts_reachable s"
  shows "(sid \<in> active_ids s \<longrightarrow> sid \<notin> completed_ids s)
       \<and> (\<forall>sp. map_of (activeSpans s) sid = Some sp \<longrightarrow>
            sid \<notin> active_ids (fst (endSpan cfg s now sid st tgs))
            \<and> (\<exists>k. completedSpans (fst (endSpan cfg s now sid st tgs))
                     = drop k (completedSpans s) @ [close_span sp now st tgs])
            \<and> activeSpans (fst (endSpan cfg s now sid st tgs))
                = AList.delete sid (activeSpans s)
            \<and> active_ids (fst (endSpan cfg s now sid st tgs)) = active_ids s - {sid}
            \<and> (\<forall>sid'. sid' \<noteq> sid \<longrightarrow>
                  map_of (activeSpans (fst (endSpan cfg s now sid st tgs))) sid'
                    = map_of (activeSpans s) sid')
            \<and> completedSpans (fst (endSpan cfg s now sid st tgs))
                = (if length (completedSpans s) < maxCompletedSpans
                   then completedSpans s @ [close_span sp now st tgs]
                   else drop (maxCompletedSpans div 2 + 1)
                          (completedSpans s @ [close_span sp now st tgs]))
            \<and> sid \<in> completed_ids (fst (endSpan cfg s now sid st tgs)))
       \<and> (\<forall>s'. ts_step s s' \<longrightarrow>
            (\<exists>k new. completedSpans s' = drop k (completedSpans s) @ new
               \<and> (new = [] \<or> (\<exists>sid' sp' now' st' tgs'.
                     map_of (activeSpans s) sid' = Some sp' \<and> new = [close_span sp' now' st' tgs']))))
       \<and> (\<forall>s'. ts_step s s' \<longrightarrow>
            completedSpans s' = completedSpans s
            \<or> (\<exists>sid' sp' now' st' tgs'. map_of (activeSpans s) sid' = Some sp'
                 \<and> completedSpans s'
                     = (if length (completedSpans s) < maxCompletedSpans
                        then completedSpans s @ [close_span sp' now' st' tgs']
                        else drop (maxCompletedSpans div 2 + 1)
                               (completedSpans s @ [close_span sp' now' st' tgs']))))
       \<and> completedSpans (fst (startTrace cfg s tid sid1 now rnd opName tgs1)) = completedSpans s
       \<and> completedSpans (fst (startSpan cfg s sid1 now tid parent opName tgs1)) = completedSpans s
       \<and> completedSpans (addSpanLog s now sid msg dat) = completedSpans s
       \<and> completedSpans (addSpanTags s sid tgs2) = completedSpans s
       \<and> (map_of (activeSpans s) sid = None \<longrightarrow> fst (endSpan cfg s now sid st tgs) = s)"
proof -
  have inv: "keyed s" "active_ids s \<inter> completed_ids s = {}"
    using ts_reachable_inv [OF assms] by simp_all
  have bound: "length (completedSpans s) \<le> maxCompletedSpans"
    using assms by (rule ts_reachable_bound)
  have one: "sid \<in> active_ids s \<longrightarrow> sid \<notin> completed_ids s"
    using inv(2) by blast
  have two: "\<forall>sp. map_of (activeSpans s) sid = Some sp \<longrightarrow>
            sid \<notin> active_ids (fst (endSpan cfg s now sid st tgs))
            \<and> (\<exists>k. completedSpans (fst (endSpan cfg s now sid st tgs))
                     = drop k (completedSpans s) @ [close_span sp now st tgs])
            \<and> activeSpans (fst (endSpan cfg s now sid st tgs))
                = AList.delete sid (activeSpans s)
            \<and> active_ids (fst (endSpan cfg s now sid st tgs)) = active_ids s - {sid}
            \<and> (\<forall>sid'. sid' \<noteq> sid \<longrightarrow>
                  map_of (activeSpans (fst (endSpan cfg s now sid st tgs))) sid'
                    = map_of (activeSpans s) sid')
            \<and> completedSpans (fst (endSpan cfg s now sid st tgs))
                = (if length (completedSpans s) < maxCompletedSpans
                   then completedSpans s @ [close_span sp now st tgs]
                   else drop (maxCompletedSpans div 2 + 1)
                          (completedSpans s @ [close_span sp now st tgs]))
            \<and> sid \<in> completed_ids (fst (endSpan cfg s now sid st tgs))"
  proof (intro allI impI conjI)
    fix sp assume a: "map_of (activeSpans s) sid = Some sp"
    show "sid \<notin> active_ids (fst (endSpan cfg s now sid st tgs))"
      using a by (rule endSpan_active(1))
    show "\<exists>k. completedSpans (fst (endSpan cfg s now sid st tgs))
                     = drop k (completedSpans s) @ [close_span sp now st tgs]"
      using a by (rule endSpan_active(2))
    show "activeSpans (fst (endSpan cfg s now sid st tgs)) = AList.delete sid (activeSpans s)"
      using a bound by (rule endSpan_moves(1))
    show "active_ids (fst (endSpan cfg s now sid st tgs)) = active_ids s - {sid}"
      using a by (rule endSpan_active_ids)
    show "completedSpans (fst (endSpan cfg s now sid st tgs))
                = (if length (completedSpans s) < maxCompletedSpans
                   then completedSpans s @ [close_span sp now st tgs]
                   else drop (maxCompletedSpans div 2 + 1)
                          (completedSpans s @ [close_span sp now st tgs]))"
      using a bound by (rule endSpan_moves(2))
    show "sid \<in> completed_ids (fst (endSpan cfg s now sid st tgs))"
      using a inv(1) by (rule endSpan_completed_id)
    fix sid' assume "sid' \<noteq> sid"
    with a show "map_of (activeSpans (fst (endSpan cfg s now sid st tgs))) sid'
                    = map_of (activeSpans s) sid'"
      by (rule endSpan_others)
  qed
  have three: "\<forall>s'. ts_step s s' \<longrightarrow>
            (\<exists>k new. completedSpans s' = drop k (completedSpans s) @ new
               \<and> (new = [] \<or> (\<exists>sid' sp' now' st' tgs'.
                     map_of (activeSpans s) sid' = Some sp' \<and> new = [close_span sp' now' st' tgs'])))"
    using completed_step by blast
  have four: "\<forall>s'. ts_step s s' \<longrightarrow>
            completedSpans s' = completedSpans s
            \<or> (\<exists>sid' sp' now' st' tgs'. map_of (activeSpans s) sid' = Some sp'
                 \<and> completedSpans s'
                     = (if length (completedSpans s) < maxCompletedSpans
                        then completedSpans s @ [close_span sp' now' st' tgs']
                        else drop (maxCompletedSpans div 2 + 1)
                               (completedSpans s @ [close_span sp' now' st' tgs'])))"
    using completed_step_exact [OF _ bound] by blast
  have five: "map_of (activeSpans s) sid = None \<longrightarrow> fst (endSpan cfg s now sid st tgs) = s"
    by (simp add: endSpan_inactive)
  show ?thesis
    by (intro conjI one two three four completed_untouched five)
qed

theorem span_in_one_store_witness:
  "''r1'' \<in> active_ids example_trace \<and> ''r1'' \<notin> completed_ids example_trace
   \<and> ''c1'' \<in> completed_ids example_trace \<and> ''c1'' \<notin> active_ids example_trace
   \<and> ''r1'' \<notin> active_ids (fst (endSpan example_config example_trace 20 ''r1'' ok None))
   \<and> map spanId (completedSpans (fst (endSpan example_config example_trace 20 ''r1'' ok None)))
       = [''c1'', ''r1'']
   \<and> ts_step example_trace (fst (endSpan example_config example_trace 20 ''r1'' ok None))
   \<and> activeSpans (fst (endSpan example_config example_trace 20 ''r1'' ok None)) = []
   \<and> ''r1'' \<in> completed_ids (fst (endSpan example_config example_trace 20 ''r1'' ok None))
   \<and> completedSpans (fst (endSpan example_config example_trace 20 ''r1'' ok None))
       = completedSpans example_trace
         @ [close_span (root_span example_config ''t1'' ''r1'' 10 ''GET /x'' None) 20 ok None]
   \<and> completedSpans (addSpanTags example_trace ''r1'' [''retries'' \<mapsto> TagNumber 2])
       = completedSpans example_trace"
proof -
  let ?e = "fst (endSpan example_config example_trace 20 ''r1'' ok None)"
  have a: "map_of (activeSpans example_trace) ''r1''
           = Some (root_span example_config ''t1'' ''r1'' 10 ''GET /x'' None)"
    by (simp add: example_trace_state root_span_def example_config_def spread_tags_def)
  have m: "''r1'' \<in> active_ids example_trace" "''c1'' \<in> completed_ids example_trace"
    by (simp_all add: example_trace_state active_ids_def completed_ids_def)
  have st: "ts_step example_trace ?e" by (rule step_endSpan)
  note t = span_in_one_store [OF example_trace_reachable, where sid = "''r1''"
             and cfg = example_config and now = 20 and st = ok and tgs = None
             and ?tgs2.0 = "[''retries'' \<mapsto> TagNumber 2]"]
  note u = span_in_one_store [OF example_trace_reachable, where sid = "''c1''"]
  have 1: "''r1'' \<notin> completed_ids example_trace"
    by (rule t [THEN conjunct1, THEN mp, OF m(1)])
  note e = t [THEN conjunct2, THEN conjunct1, THEN spec, THEN mp, OF a]
  have 2: "''r1'' \<notin> active_ids ?e" by (rule e [THEN conjunct1])
  from u [THEN conjunct1] m(2) have 3: "''c1'' \<notin> active_ids example_trace"
    by blast
  have 4: "map spanId (completedSpans ?e) = [''c1'', ''r1'']"
    by (simp add: example_trace_state endSpan_def close_span_def evict_completed_def
          maxCompletedSpans_def Let_def)
  have "activeSpans ?e = AList.delete ''r1'' (activeSpans example_trace)"
    by (rule e [THEN conjunct2, THEN conjunct2, THEN conjunct1])
  then have 5: "activeSpans ?e = []" by (simp add: example_trace_state)
  have 6: "''r1'' \<in> completed_ids ?e"
    by (rule e [THEN conjunct2, THEN conjunct2, THEN conjunct2, THEN conjunct2,
                THEN conjunct2, THEN conjunct2])
  have "completedSpans ?e
        = (if length (completedSpans example_trace) < maxCompletedSpans
           then completedSpans example_trace
                @ [close_span (root_span example_config ''t1'' ''r1'' 10 ''GET /x'' None) 20 ok None]
           else drop (maxCompletedSpans div 2 + 1)
                  (completedSpans example_trace
                   @ [close_span (root_span example_config ''t1'' ''r1'' 10 ''GET /x'' None)
                        20 ok None]))"
    by (rule e [THEN conjunct2, THEN conjunct2, THEN conjunct2, THEN conjunct2,
                THEN conjunct2, THEN conjunct1])
  moreover have "length (completedSpans example_trace) < maxCompletedSpans"
    by (simp add: example_trace_state maxCompletedSpans_def)
  ultimately have 7: "completedSpans ?e = completedSpans example_trace
         @ [close_span (root_span example_config ''t1'' ''r1'' 10 ''GET /x'' None) 20 ok None]"
    by simp
  have 8: "completedSpans (addSpanTags example_trace ''r1'' [''retries'' \<mapsto> TagNumber 2])
       = completedSpans example_trace"
    by (rule t [THEN conjunct2, THEN conjunct2, THEN conjunct2, THEN conjunct2,
                THEN conjunct2, THEN conjunct2, THEN conjunct2, THEN conjunct1])
  show ?thesis
    by (intro conjI m 1 2 3 4 st 5 6 7 8)
qed

section \<open>No-op on spans that are not active\<close>

text \<open>
  C7. \<open>endSpan\<close>, \<open>addSpanLog\<close> and \<open>addSpanTags\<close> called with a span id that is
  not a key of the active set return at the guard: the tracer's state (active set and
  completed store) is the one before the call, nothing is shipped, and no branch of
  the three operations raises.
\<close>

theorem inactive_span_noop:
  assumes "map_of (activeSpans s) sid = None"
  shows "endSpan cfg s now sid st tgs = (s, None)
       \<and> addSpanLog s now sid msg dat = s
       \<and> addSpanTags s sid tgs' = s"
  using assms by (simp add: endSpan_def addSpanLog_def addSpanTags_def)

theorem inactive_span_noop_witness:
  "map_of (activeSpans example_trace) ''c1'' = None
   \<and> endSpan example_config example_trace 20 ''c1'' ok None = (example_trace, None)
   \<and> addSpanLog example_trace 20 ''c1'' ''late'' None = example_trace
   \<and> addSpanTags example_trace ''c1'' [''retries'' \<mapsto> TagNumber 2] = example_trace"
proof -
  have h: "map_of (activeSpans example_trace) ''c1'' = None"
    by (simp add: example_trace_state)
  from inactive_span_noop [OF h, of example_config 20 ok None "''late''" None
         "[''retries'' \<mapsto> TagNumber 2]"]
  show ?thesis using h by blast
qed

section \<open>Helper lemmas: flushing and shipping\<close>

lemma flush_begin_empties: "buffer (fst (flush_begin stringify s)) = []"
  by (simp add: flush_begin_def Let_def)

lemma flush_settle_resolves: "\<exists>ls. flush_settle s pending outcome = Inr (s, ls)"
  by (cases pending; cases outcome) (simp_all add: flush_settle_def try_catch_def)

lemma flush_settle_failed:
  assumes "export_failed outcome"
  shows "\<exists>line. flush_settle s (Awaiting req) outcome = Inr (s, [line])"
  using assms by (cases outcome) (simp_all add: flush_settle_def try_catch_def export_failed_def)

lemma shipSpan_resolves: "shipSpan prepare sp outcome = Inr ()"
  by (cases "prepare sp"; cases outcome) (simp_all add: shipSpan_def try_catch_def)

lemma es_log_after_flush:
  assumes "buffer s = []"
  shows "es_log stringify s iso1 iso2 entry
           = (s\<lparr>buffer := [log_document s iso1 iso2 entry]\<rparr>, NothingToFlush)"
  using assms by (simp add: es_log_def Let_def bufferLimit_def)

lemma flush_begin_one:
  assumes "buffer s = []"
  shows "flush_begin stringify (s\<lparr>buffer := [d]\<rparr>)
           = (s, case bulk_request stringify s [d] of
                   Inl e \<Rightarrow> ThrownInTry e
                 | Inr req \<Rightarrow> Awaiting req)"
proof -
  have "s\<lparr>buffer := []\<rparr> = s" using assms by simp
  then show ?thesis by (simp add: flush_begin_def Let_def)
qed

section \<open>Export failures are dropped\<close>

text \<open>
  C8. \<open>flush\<close> empties the buffer before it sends: whatever the outcome of the
  request, the records it took are no longer buffered. When the request settles,
  \<open>flush\<close> resolves (it does not reject) and leaves the transport's state as it
  finds it, so nothing is put back and no second request is made; a rejected request
  or a response outside 2xx only writes one diagnostic line. \<open>shipSpan\<close>, which
  \<open>endSpan\<close> starts without awaiting it, resolves for every outcome. After the
  failed flush the transport works as before: the next \<open>log\<close> buffers its
  document, and the next \<open>flush\<close> sends the documents buffered since, the dropped
  ones not among them.
\<close>

theorem export_failure_dropped:
  "buffer (fst (flush_begin stringify s)) = []
   \<and> (\<exists>ls. flush_settle s' pending outcome = Inr (s', ls))
   \<and> (export_failed outcome \<longrightarrow>
        (\<exists>line. flush_settle s' (Awaiting req) outcome = Inr (s', [line])))
   \<and> shipSpan prepare sp outcome = Inr ()
   \<and> es_log stringify (fst (flush_begin stringify s)) iso1 iso2 entry
       = ((fst (flush_begin stringify s))
            \<lparr>buffer := [log_document (fst (flush_begin stringify s)) iso1 iso2 entry]\<rparr>,
          NothingToFlush)
   \<and> flush_begin stringify ((fst (flush_begin stringify s))\<lparr>buffer := [d]\<rparr>)
       = (fst (flush_begin stringify s),
          case bulk_request stringify (fst (flush_begin stringify s)) [d] of
            Inl e \<Rightarrow> ThrownInTry e
          | Inr r \<Rightarrow> Awaiting r)"
proof -
  have 5: "es_log stringify (fst (flush_begin stringify s)) iso1 iso2 entry
       = ((fst (flush_begin stringify s))
            \<lparr>buffer := [log_document (fst (flush_begin stringify s)) iso1 iso2 entry]\<rparr>,
          NothingToFlush)"
    by (rule es_log_after_flush) (rule flush_begin_empties)
  have 6: "flush_begin stringify ((fst (flush_begin stringify s))\<lparr>buffer := [d]\<rparr>)
       = (fst (flush_begin stringify s),
          case bulk_request stringify (fst (flush_begin stringify s)) [d] of
            Inl e \<Rightarrow> ThrownInTry e
          | Inr r \<Rightarrow> Awaiting r)"
    by (rule flush_begin_one) (rule flush_begin_empties)
  show ?thesis
    using flush_begin_empties [of stringify s]
        flush_settle_resolves [of s' pending outcome]
        flush_settle_failed [of outcome s' req]
        shipSpan_resolves [of prepare sp outcome]
        5 6
    by blast
qed

theorem export_failure_dropped_witness:
  "export_failed (HttpResponse False 503 ''Service Unavailable'')
   \<and> export_failed (NetworkError ''ECONNREFUSED'')
   \<and> flush_begin example_stringify example_transport
       = (example_transport\<lparr>buffer := []\<rparr>,
          Awaiting \<lparr>req_url = ''http://es:9200/_bulk'',
                    req_headers = [(''Content-Type'', ''application/x-ndjson'')],
                    req_body = ''{}'' @ [CHR 0x0A] @ ''{}'' @ [CHR 0x0A]\<rparr>)
   \<and> flush_settle (example_transport\<lparr>buffer := []\<rparr>)
        (snd (flush_begin example_stringify example_transport))
        (HttpResponse False 503 ''Service Unavailable'')
       = Inr (example_transport\<lparr>buffer := []\<rparr>,
              [''Elasticsearch bulk insert failed: 503 Service Unavailable''])
   \<and> flush_settle (example_transport\<lparr>buffer := []\<rparr>)
        (snd (flush_begin example_stringify example_transport))
        (NetworkError ''ECONNREFUSED'')
       = Inr (example_transport\<lparr>buffer := []\<rparr>,
              [''Failed to ship logs to Elasticsearch: ECONNREFUSED''])
   \<and> shipSpan (\<lambda>sp. Inl ''RangeError'') (root_span example_config ''t1'' ''r1'' 10 ''GET /x'' None)
        (NetworkError ''ECONNREFUSED'') = Inr ()
   \<and> buffer (fst (es_log example_stringify (fst (flush_begin example_stringify example_transport))
        ''2026-01-01T10:00:00.000Z'' ''2026-01-01T10:00:00.001Z'' [(''message'', JStr ''next'')]))
       = [[(''message'', JStr ''next''), (''@timestamp'', JStr ''2026-01-01T10:00:00.000Z''),
           (''index'', JStr ''payd-logs-2026-01-01'')]]"
proof -
  let ?s1 = "example_transport\<lparr>buffer := []\<rparr>"
  let ?req = "\<lparr>req_url = ''http://es:9200/_bulk'',
                    req_headers = [(''Content-Type'', ''application/x-ndjson'')],
                    req_body = ''{}'' @ [CHR 0x0A] @ ''{}'' @ [CHR 0x0A]\<rparr>"
  have f: "export_failed (HttpResponse False 503 ''Service Unavailable'')"
    "export_failed (NetworkError ''ECONNREFUSED'')"
    by (simp_all add: export_failed_def)
  have b: "flush_begin example_stringify example_transport = (?s1, Awaiting ?req)"
    by (simp add: flush_begin_def example_transport_def example_stringify_def bulk_request_def
          bulk_lines_def Let_def)
  note t1 = export_failure_dropped [of example_stringify example_transport ?s1 "Awaiting ?req"
      "HttpResponse False 503 ''Service Unavailable''" ?req "\<lambda>sp. Inl ''RangeError''"
      "root_span example_config ''t1'' ''r1'' 10 ''GET /x'' None"
      "''2026-01-01T10:00:00.000Z''" "''2026-01-01T10:00:00.001Z''" "[(''message'', JStr ''next'')]"]
  note t2 = export_failure_dropped [of example_stringify example_transport ?s1 "Awaiting ?req"
      "NetworkError ''ECONNREFUSED''" ?req "\<lambda>sp. Inl ''RangeError''"
      "root_span example_config ''t1'' ''r1'' 10 ''GET /x'' None"
      "''2026-01-01T10:00:00.000Z''" "''2026-01-01T10:00:00.001Z''" "[(''message'', JStr ''next'')]"]
  from t1 f(1) obtain l1 where
    1: "flush_settle ?s1 (Awaiting ?req) (HttpResponse False 503 ''Service Unavailable'')
        = Inr (?s1, [l1])" by blast
  from t2 f(2) obtain l2 where
    2: "flush_settle ?s1 (Awaiting ?req) (NetworkError ''ECONNREFUSED'') = Inr (?s1, [l2])"
    by blast
  have d1: "l1 = ''Elasticsearch bulk insert failed: 503 Service Unavailable''"
    using 1 by (simp add: flush_settle_def try_catch_def string_of_int_def digit_char_def)
  have d2: "l2 = ''Failed to ship logs to Elasticsearch: ECONNREFUSED''"
    using 2 by (simp add: flush_settle_def try_catch_def)
  from t2 have 3: "shipSpan (\<lambda>sp. Inl ''RangeError'')
        (root_span example_config ''t1'' ''r1'' 10 ''GET /x'' None)
        (NetworkError ''ECONNREFUSED'') = Inr ()"
    by blast
  from t2 have "buffer (fst (es_log example_stringify (fst (flush_begin example_stringify example_transport))
        ''2026-01-01T10:00:00.000Z'' ''2026-01-01T10:00:00.001Z'' [(''message'', JStr ''next'')]))
       = [log_document (fst (flush_begin example_stringify example_transport))
            ''2026-01-01T10:00:00.000Z'' ''2026-01-01T10:00:00.001Z'' [(''message'', JStr ''next'')]]"
    by simp
  then have 4: "buffer (fst (es_log example_stringify (fst (flush_begin example_stringify example_transport))
        ''2026-01-01T10:00:00.000Z'' ''2026-01-01T10:00:00.001Z'' [(''message'', JStr ''next'')]))
       = [[(''message'', JStr ''next''), (''@timestamp'', JStr ''2026-01-01T10:00:00.000Z''),
           (''index'', JStr ''payd-logs-2026-01-01'')]]"
    unfolding b by (simp add: log_document_def example_transport_def)
  show ?thesis
    using f b 1 2 3 4 unfolding d1 d2 by simp
qed

section \<open>Helper lemmas: the trace detail response\<close>

lemma example_done_state:
  "example_done = \<lparr>activeSpans = [],
     completedSpans = [
       \<lparr>spanId = ''c1'', traceId = ''t1'', parentSpanId = Some ''r1'',
        operationName = ''db'', serviceName = ''payd'',
        startTime = 12, endTime = Some 15, duration = Some 3,
        status = ok, tags = Map.empty, logs = []\<rparr>,
       \<lparr>spanId = ''r1'', traceId = ''t1'', parentSpanId = None,
        operationName = ''GET /x'', serviceName = ''payd'',
        startTime = 10, endTime = Some 100, duration = Some 90,
        status = ok, tags = Map.empty, logs = []\<rparr>],
     enabled = True, sampleRate = 1\<rparr>"
  by (simp add: example_done_def example_trace_state endSpan_def close_span_def
        evict_completed_def maxCompletedSpans_def Let_def)

lemma trace_detail_contents:
  "traceDetailHandler s now tid =
     (if getTrace s tid = [] then Status404
      else Status200
        \<lparr>td_traceId = tid, td_spans = getTrace s tid, totalSpans = length (getTrace s tid),
         td_duration = end_or_now (endTime (last (getTrace s tid))) now
                       - startTime (hd (getTrace s tid))\<rparr>)"
  by (simp add: traceDetailHandler_def Let_def last_conv_nth hd_conv_nth)

lemma getTrace_chronological:
  "sorted (map startTime (getTrace s tid))"
  "set (getTrace s tid)
     = {sp \<in> snd ` set (activeSpans s) \<union> set (completedSpans s). traceId sp = tid}"
  by (auto simp: getTrace_def)

section \<open>Duration in the trace detail response\<close>

text \<open>
  C9. The handler answers 404 when \<open>getTrace\<close> is empty and otherwise returns the
  spans of the trace in ascending start time with their count
  (\<open>trace_detail_contents\<close>, \<open>getTrace_chronological\<close>). Its duration is the end
  time of the span that started last (the clock if that span is open) minus the
  earliest start time. For a root span with a child that ends before it, this is not
  the time from the root's start to the latest end: with the root running from 10 to
  100 and the child from 12 to 15 the handler reports 5 where the trace lasted 90, and
  while the root is still open at clock reading 50 it reports 5 where the open trace
  has lasted 40.
\<close>

theorem trace_detail_duration_nested:
  "traceDetailHandler example_done 200 ''t1''
     = Status200
        \<lparr>td_traceId = ''t1'', td_spans = getTrace example_done ''t1'', totalSpans = 2,
         td_duration = 5\<rparr>
   \<and> map spanId (getTrace example_done ''t1'') = [''r1'', ''c1'']
   \<and> map endTime (getTrace example_done ''t1'') = [Some 100, Some 15]
   \<and> trace_duration_spec (getTrace example_done ''t1'') 200 = Some 90
   \<and> traceDetailHandler example_trace 50 ''t1''
     = Status200
        \<lparr>td_traceId = ''t1'', td_spans = getTrace example_trace ''t1'', totalSpans = 2,
         td_duration = 5\<rparr>
   \<and> map endTime (getTrace example_trace ''t1'') = [None, Some 15]
   \<and> trace_duration_spec (getTrace example_trace ''t1'') 50 = Some 40"
proof -
  have g1: "getTrace example_done ''t1'' = [
       \<lparr>spanId = ''r1'', traceId = ''t1'', parentSpanId = None,
        operationName = ''GET /x'', serviceName = ''payd'',
        startTime = 10, endTime = Some 100, duration = Some 90,
        status = ok, tags = Map.empty, logs = []\<rparr>,
       \<lparr>spanId = ''c1'', traceId = ''t1'', parentSpanId = Some ''r1'',
        operationName = ''db'', serviceName = ''payd'',
        startTime = 12, endTime = Some 15, duration = Some 3,
        status = ok, tags = Map.empty, logs = []\<rparr>]"
    by (simp add: getTrace_def example_done_state)
  have g2: "getTrace example_trace ''t1'' = [
       \<lparr>spanId = ''r1'', traceId = ''t1'', parentSpanId = None,
        operationName = ''GET /x'', serviceName = ''payd'',
        startTime = 10, endTime = None, duration = None,
        status = in_progress, tags = Map.empty, logs = []\<rparr>,
       \<lparr>spanId = ''c1'', traceId = ''t1'', parentSpanId = Some ''r1'',
        operationName = ''db'', serviceName = ''payd'',
        startTime = 12, endTime = Some 15, duration = Some 3,
        status = ok, tags = Map.empty, logs = []\<rparr>]"
    by (simp add: getTrace_def example_trace_state)
  have 1: "traceDetailHandler example_done 200 ''t1''
     = Status200
        \<lparr>td_traceId = ''t1'', td_spans = getTrace example_done ''t1'', totalSpans = 2,
         td_duration = 5\<rparr>"
    by (simp add: traceDetailHandler_def Let_def g1 end_or_now_def)
  have 2: "traceDetailHandler example_trace 50 ''t1''
     = Status200
        \<lparr>td_traceId = ''t1'', td_spans = getTrace example_trace ''t1'', totalSpans = 2,
         td_duration = 5\<rparr>"
    by (simp add: traceDetailHandler_def Let_def g2 end_or_now_def)
  have 3: "trace_duration_spec (getTrace example_done ''t1'') 200 = Some 90"
    "trace_duration_spec (getTrace example_trace ''t1'') 50 = Some 40"
    by (simp_all add: g1 g2 trace_duration_spec_def span_end_or_now_def)
  have 4: "map spanId (getTrace example_done ''t1'') = [''r1'', ''c1'']"
    "map endTime (getTrace example_done ''t1'') = [Some 100, Some 15]"
    "map endTime (getTrace example_trace ''t1'') = [None, Some 15]"
    by (simp_all add: g1 g2)
  show ?thesis using 1 2 3 4 by blast
qed

section \<open>Helper lemmas: filtering and truncating alerts\<close>

lemma matching_alerts_filter: "matching_alerts s flt = filter (passes_filter flt) (alerts s)"
  by (auto simp: matching_alerts_def passes_filter_def Let_def split: option.splits
        intro: filter_cong)

lemma limit_default: "no_positive_limit flt \<Longrightarrow> limit_or_default flt = 50"
  by (auto simp: no_positive_limit_def limit_or_default_def filter_field_def split: option.splits)

lemma take_sorted_newest:
  assumes "sorted (map f xs)" "a \<in> set (take n xs)" "b \<in> set xs" "b \<notin> set (take n xs)"
  shows "f a \<le> f b"
proof -
  have "set xs = set (take n xs) \<union> set (drop n xs)"
    by (metis append_take_drop_id set_append)
  with assms(3,4) have b: "b \<in> set (drop n xs)" by blast
  have "sorted (map f (take n xs) @ map f (drop n xs))"
    using assms(1) by (metis append_take_drop_id map_append)
  then show ?thesis using assms(2) b by (auto simp: sorted_append)
qed

section \<open>The default limit of getAlerts\<close>

text \<open>
  C10. For every alert store, \<open>getAlerts\<close> called without a filter, without a
  \<open>limit\<close> field or with the limit \<open>0\<close> returns at most 50 alerts: the first 50
  of the alerts passing the other filters in newest-first order, so every passing
  alert left out is no newer than every alert returned; when more than 50 alerts pass,
  exactly 50 are returned.
\<close>

theorem getAlerts_default_limit:
  assumes "no_positive_limit flt"
  shows "length (getAlerts s flt) \<le> 50
       \<and> getAlerts s flt
           = take 50 (sort_key (\<lambda>a. - alert_timestamp a) (filter (passes_filter flt) (alerts s)))
       \<and> length (getAlerts s flt) = min 50 (length (filter (passes_filter flt) (alerts s)))
       \<and> set (getAlerts s flt) \<subseteq> {a \<in> set (alerts s). passes_filter flt a}
       \<and> sorted (map (\<lambda>a. - alert_timestamp a) (getAlerts s flt))
       \<and> (\<forall>a \<in> set (getAlerts s flt). \<forall>b \<in> set (alerts s).
             passes_filter flt b \<and> b \<notin> set (getAlerts s flt) \<longrightarrow>
             alert_timestamp b \<le> alert_timestamp a)"
proof -
  let ?m = "filter (passes_filter flt) (alerts s)"
  let ?srt = "sort_key (\<lambda>a. - alert_timestamp a) ?m"
  have g: "getAlerts s flt = take 50 ?srt"
    using limit_default [OF assms]
    by (simp add: getAlerts_def slice_to_def matching_alerts_filter)
  have l: "length (getAlerts s flt) = min 50 (length ?m)"
    by (simp add: g)
  have sub: "set (getAlerts s flt) \<subseteq> {a \<in> set (alerts s). passes_filter flt a}"
  proof -
    have "set (take 50 ?srt) \<subseteq> set ?srt" by (rule set_take_subset)
    then show ?thesis by (auto simp: g)
  qed
  have srt: "sorted (map (\<lambda>a. - alert_timestamp a) ?srt)"
    by (rule sorted_sort_key)
  have s2: "sorted (map (\<lambda>a. - alert_timestamp a) (getAlerts s flt))"
    unfolding g using srt by (simp add: take_map [symmetric] sorted_wrt_take)
  have newest: "alert_timestamp b \<le> alert_timestamp a"
    if "a \<in> set (getAlerts s flt)" "b \<in> set (alerts s)" "passes_filter flt b"
       "b \<notin> set (getAlerts s flt)" for a b
  proof -
    have "b \<in> set ?srt" using that(2,3) by simp
    from take_sorted_newest [OF srt that(1) [unfolded g] this that(4) [unfolded g]]
    show ?thesis by simp
  qed
  have le: "length (getAlerts s flt) \<le> 50"
    by (simp add: l)
  show ?thesis
    using le g l sub s2 newest by blast
qed

theorem getAlerts_default_limit_witness:
  "no_positive_limit None
   \<and> no_positive_limit (Some \<lparr>f_severity = Some critical, f_type = None, f_acknowledged = None,
                              f_limit = Some 0\<rparr>)
   \<and> length (alerts (example_store 60)) = 60
   \<and> length (getAlerts (example_store 60) None) = 50
   \<and> length (getAlerts (example_store 60)
        (Some \<lparr>f_severity = Some critical, f_type = None, f_acknowledged = None,
               f_limit = Some 0\<rparr>)) = 50
   \<and> map alert_timestamp (getAlerts (example_store 3) None) = [2, 1, 0]"
proof -
  let ?f = "Some \<lparr>f_severity = Some critical, f_type = None, f_acknowledged = None,
                  f_limit = Some 0\<rparr>"
  have n: "no_positive_limit None" "no_positive_limit ?f"
    by (simp_all add: no_positive_limit_def)
  have p: "filter (passes_filter flt) (alerts (example_store 60)) = alerts (example_store 60)"
    if "flt = None \<or> flt = ?f" for flt
    using that
    by (auto simp: example_store_def passes_filter_def filter_field_def example_first_alert_def
          filter_id_conv)
  have l: "length (alerts (example_store 60)) = 60"
    by (simp add: example_store_def)
  from getAlerts_default_limit [OF n(1), of "example_store 60"] p [of None] l
  have 1: "length (getAlerts (example_store 60) None) = 50"
    by simp
  from getAlerts_default_limit [OF n(2), of "example_store 60"] p [of ?f] l
  have 2: "length (getAlerts (example_store 60) ?f) = 50"
    by simp
  have u: "[0..<3] = [0, 1, 2]" by (simp add: upt_conv_Cons)
  from getAlerts_default_limit [OF n(1), of "example_store 3"]
  have "getAlerts (example_store 3) None
        = take 50 (sort_key (\<lambda>a. - alert_timestamp a)
            (filter (passes_filter None) (alerts (example_store 3))))"
    by blast
  then have 3: "map alert_timestamp (getAlerts (example_store 3) None) = [2, 1, 0]"
    by (simp add: example_store_def u passes_filter_def filter_field_def)
  show ?thesis using n l 1 2 3 by blast
qed

end
